theory Spec2Isabelle
  imports Main "HOL-Library.Word"
begin

section \<open>JavaScript values of the locale tools\<close>

text \<open>
  The two programs (\<^verbatim>\<open>generate-locale.mjs\<close> and \<^verbatim>\<open>sync-structure.mjs\<close>) work on
  the values a YAML parse or a spreadsheet row hands them: \<^verbatim>\<open>undefined\<close>, \<^verbatim>\<open>null\<close>,
  booleans, numbers, strings, arrays and plain objects.

  \<^item> A string is a sequence of 16-bit code units, as in the language; \<open>jstr\<close> turns
    a literal of one-byte characters into such a string.
  \<^item> Numbers are opaque to both programs (they are copied, never computed with), so
    the type of numbers is a parameter \<open>'n\<close>.
  \<^item> A property key of JavaScript is a string, but an object enumerates its
    \<^emph>\<open>array-index\<close> keys (canonical decimal strings below \<open>2^32 - 1\<close>) first, in
    ascending numeric order, and its other keys afterwards in creation order.
    The key type keeps the two sorts apart: \<open>Idx n\<close> is the key whose string is the
    decimal numeral of \<open>n\<close>, \<open>Name s\<close> any other string.
  \<^item> An object is the list of its own enumerable properties in enumeration order,
    the order of \<^verbatim>\<open>Object.keys\<close>.
  \<^item> An array is the list of its elements (a hole reads as \<^verbatim>\<open>undefined\<close> and is
    modelled as the element \<open>JUndefined\<close>) together with the named, non-index
    properties that JavaScript allows on an array.
  \<^item> A plain object inherits the members of \<^verbatim>\<open>Object.prototype\<close>. The merge tests
    \<^verbatim>\<open>k in o\<close> and reads \<^verbatim>\<open>o[k]\<close>, and both follow the prototype chain; the
    inherited methods are the values \<open>JFunction name\<close>.
\<close>

type_synonym codeunit = "16 word"

type_synonym jsstring = "codeunit list"

definition jstr :: "string \<Rightarrow> jsstring" where
  "jstr s = map of_char s"

datatype key = Idx nat | Name jsstring

datatype 'n jsval =
    JUndefined
  | JNull
  | JBool bool
  | JNum 'n
  | JStr jsstring
  | JArr "'n jsval list" "(key \<times> 'n jsval) list"
  | JObj "(key \<times> 'n jsval) list"
  | JFunction jsstring

fun isArray :: "'n jsval \<Rightarrow> bool" where
  "isArray (JArr xs ps) = True"
| "isArray _ = False"

text \<open>
  \<^verbatim>\<open>isObject(v)\<close>: \<^verbatim>\<open>v != null && typeof v === "object" && !Array.isArray(v)\<close>.
  The type of a function is \<^verbatim>\<open>"function"\<close>.
\<close>

fun isObject :: "'n jsval \<Rightarrow> bool" where
  "isObject (JObj es) = True"
| "isObject _ = False"

fun isUndefined :: "'n jsval \<Rightarrow> bool" where
  "isUndefined JUndefined = True"
| "isUndefined _ = False"

text \<open>\<^verbatim>\<open>v == null\<close> holds of \<^verbatim>\<open>null\<close> and \<^verbatim>\<open>undefined\<close> only.\<close>

fun isNullish :: "'n jsval \<Rightarrow> bool" where
  "isNullish JUndefined = True"
| "isNullish JNull = True"
| "isNullish _ = False"

fun isString :: "'n jsval \<Rightarrow> bool" where
  "isString (JStr s) = True"
| "isString _ = False"

subsection \<open>Decimal numerals\<close>

definition isDigit :: "codeunit \<Rightarrow> bool" where
  "isDigit c = (of_char CHR ''0'' \<le> c \<and> c \<le> of_char CHR ''9'')"

definition digitsToNat :: "jsstring \<Rightarrow> nat" where
  "digitsToNat ds = foldl (\<lambda>acc d. 10 * acc + (unat d - 48)) 0 ds"

function showNat :: "nat \<Rightarrow> jsstring" where
  "showNat n = (if n < 10 then [of_nat (48 + n)]
                else showNat (n div 10) @ [of_nat (48 + n mod 10)])"
  by pat_completeness auto
termination
  by (relation "measure id") auto

declare showNat.simps [simp del]

text \<open>
  An array index is a canonical numeral (no sign, no leading zero) below \<open>2^32 - 1\<close>;
  every other string is an ordinary property name.
\<close>

definition isArrayIndex :: "jsstring \<Rightarrow> bool" where
  "isArrayIndex s =
     (s \<noteq> [] \<and> list_all isDigit s \<and> (s = jstr ''0'' \<or> hd s \<noteq> of_char CHR ''0'')
      \<and> digitsToNat s < 4294967295)"

definition keyOfString :: "jsstring \<Rightarrow> key" where
  "keyOfString s = (if isArrayIndex s then Idx (digitsToNat s) else Name s)"

fun stringOfKey :: "key \<Rightarrow> jsstring" where
  "stringOfKey (Idx n) = showNat n"
| "stringOfKey (Name s) = s"

subsection \<open>Reading and writing own properties\<close>

text \<open>
  \<open>goesBefore k k'\<close>: a newly created key \<open>k\<close> is enumerated before the existing key
  \<open>k'\<close>. Index keys come in numeric order before all names; a new name goes last.
\<close>

fun goesBefore :: "key \<Rightarrow> key \<Rightarrow> bool" where
  "goesBefore (Idx n) (Idx n') = (n < n')"
| "goesBefore (Idx n) (Name s) = True"
| "goesBefore (Name s) k' = False"

text \<open>
  \<^verbatim>\<open>o[k] = v\<close> on an object: an existing key keeps its place, a new one is created.
  The assignment defines the own property \<open>k\<close> for every key; the accessor
  \<^verbatim>\<open>__proto__\<close>, whose assignment changes the prototype of \<open>o\<close> instead, is treated
  as any other name here.
\<close>

fun objSet :: "key \<Rightarrow> 'v \<Rightarrow> (key \<times> 'v) list \<Rightarrow> (key \<times> 'v) list" where
  "objSet k v [] = [(k, v)]"
| "objSet k v ((k', v') # es) =
     (if k' = k then (k, v) # es
      else if goesBefore k k' then (k, v) # (k', v') # es
      else (k', v') # objSet k v es)"

text \<open>\<^verbatim>\<open>a[n] = v\<close> on an array: writing past the end leaves holes in between.\<close>

definition arrSet :: "'n jsval list \<Rightarrow> nat \<Rightarrow> 'n jsval \<Rightarrow> 'n jsval list" where
  "arrSet xs n v =
     (if n < length xs then xs[n := v]
      else xs @ replicate (n - length xs) JUndefined @ [v])"

definition arrGet :: "'n jsval list \<Rightarrow> nat \<Rightarrow> 'n jsval" where
  "arrGet xs n = (if n < length xs then xs ! n else JUndefined)"

text \<open>The value of the own property \<open>k\<close>, \<^verbatim>\<open>undefined\<close> when there is none.\<close>

definition objGet :: "(key \<times> 'n jsval) list \<Rightarrow> key \<Rightarrow> 'n jsval" where
  "objGet es k = (case map_of es k of None \<Rightarrow> JUndefined | Some v \<Rightarrow> v)"

text \<open>\<^verbatim>\<open>Object.hasOwn(o, k)\<close>: \<open>k\<close> is an own property.\<close>

definition hasOwn :: "key \<Rightarrow> (key \<times> 'v) list \<Rightarrow> bool" where
  "hasOwn k es = (map_of es k \<noteq> None)"

subsection \<open>Inherited properties\<close>

text \<open>
  The property names of \<^verbatim>\<open>Object.prototype\<close>, which every plain object inherits
  (the objects of a YAML parse and the literal \<^verbatim>\<open>{}\<close> are plain objects). None of
  them is enumerable, and none is an array index.
\<close>

definition objectPrototypeNames :: "jsstring list" where
  "objectPrototypeNames = map jstr
     [''constructor'', ''__defineGetter__'', ''__defineSetter__'', ''hasOwnProperty'',
      ''__lookupGetter__'', ''__lookupSetter__'', ''isPrototypeOf'', ''propertyIsEnumerable'',
      ''toString'', ''valueOf'', ''__proto__'', ''toLocaleString'']"

fun inherited :: "key \<Rightarrow> bool" where
  "inherited (Idx n) = False"
| "inherited (Name s) = (s \<in> set objectPrototypeNames)"

text \<open>
  \<^verbatim>\<open>Object.prototype[k]\<close>, the value a plain object reads at a key it has no own
  property for: a built-in function at the name of a method; at \<^verbatim>\<open>__proto__\<close> the
  prototype itself, \<^verbatim>\<open>Object.prototype\<close>, which is an object without enumerable
  properties and is modelled as the empty object; \<^verbatim>\<open>undefined\<close> at every other key.
\<close>

definition inheritedValue :: "key \<Rightarrow> 'n jsval" where
  "inheritedValue k =
     (case k of
        Idx n \<Rightarrow> JUndefined
      | Name s \<Rightarrow> if s = jstr ''__proto__'' then JObj []
                  else if s \<in> set objectPrototypeNames then JFunction s
                  else JUndefined)"

text \<open>\<^verbatim>\<open>k in o\<close> for a plain object \<open>o\<close>: an own or an inherited property.\<close>

definition keyIn :: "key \<Rightarrow> (key \<times> 'v) list \<Rightarrow> bool" where
  "keyIn k es = (hasOwn k es \<or> inherited k)"

text \<open>\<^verbatim>\<open>o[k]\<close> for a plain object \<open>o\<close>: the own property, else the inherited one.\<close>

definition objRead :: "(key \<times> 'n jsval) list \<Rightarrow> key \<Rightarrow> 'n jsval" where
  "objRead es k = (case map_of es k of None \<Rightarrow> inheritedValue k | Some v \<Rightarrow> v)"

subsection \<open>Properties in the build phase\<close>

text \<open>
  \<open>getProp v k\<close> is \<^verbatim>\<open>v[k]\<close> as \<^verbatim>\<open>setDeep\<close> and \<^verbatim>\<open>ensureContainer\<close> read it, for a
  value that is not \<^verbatim>\<open>null\<close> or \<^verbatim>\<open>undefined\<close>: the own property of a container
  (keys of a path are taken not to name members of \<^verbatim>\<open>Object.prototype\<close> or
  \<^verbatim>\<open>Array.prototype\<close>), \<^verbatim>\<open>undefined\<close> on a primitive. \<open>putProp v k x\<close> is the
  container after \<^verbatim>\<open>v[k] = x\<close>.
\<close>

fun getProp :: "'n jsval \<Rightarrow> key \<Rightarrow> 'n jsval" where
  "getProp (JObj es) k = objGet es k"
| "getProp (JArr xs ps) (Idx n) = arrGet xs n"
| "getProp (JArr xs ps) (Name s) = objGet ps (Name s)"
| "getProp _ k = JUndefined"

fun putProp :: "'n jsval \<Rightarrow> key \<Rightarrow> 'n jsval \<Rightarrow> 'n jsval" where
  "putProp (JObj es) k x = JObj (objSet k x es)"
| "putProp (JArr xs ps) (Idx n) x = JArr (arrSet xs n x) ps"
| "putProp (JArr xs ps) (Name s) x = JArr xs (objSet (Name s) x ps)"
| "putProp v k x = v"

text \<open>
  The exceptions of the build phase: the \<^verbatim>\<open>Error\<close> that \<^verbatim>\<open>setDeep\<close> throws itself
  ("Expected array while setting ..."), and the \<^verbatim>\<open>TypeError\<close> of the language
  (the files are ES modules, hence strict code: reading a property of \<^verbatim>\<open>null\<close> or
  \<^verbatim>\<open>undefined\<close>, and assigning a property on a primitive, both throw).
\<close>

datatype error = ExpectedArray | TypeError

definition readProp :: "'n jsval \<Rightarrow> key \<Rightarrow> error + 'n jsval" where
  "readProp v k = (if isNullish v then Inl TypeError else Inr (getProp v k))"

definition writeProp :: "'n jsval \<Rightarrow> key \<Rightarrow> 'n jsval \<Rightarrow> error + 'n jsval" where
  "writeProp v k x =
     (if isObject v \<or> isArray v then Inr (putProp v k x) else Inl TypeError)"

text \<open>Sequencing: an exception ends the computation.\<close>

definition thenE :: "error + 'a \<Rightarrow> ('a \<Rightarrow> error + 'b) \<Rightarrow> error + 'b" where
  "thenE r f = (case r of Inl e \<Rightarrow> Inl e | Inr x \<Rightarrow> f x)"

section \<open>generate-locale.mjs: the build phase\<close>

subsection \<open>Helpers\<close>

text \<open>
  A spreadsheet cell as \<^verbatim>\<open>sheet_to_json\<close> delivers it. \<^verbatim>\<open>String(v)\<close> of a number and
  the truthiness of a number belong to the floating-point numbers of the language;
  they are parameters (\<open>numStr\<close>, \<open>numFalsy\<close>) of the functions that need them.
\<close>

datatype 'n cell = CUndefined | CNull | CBool bool | CNum 'n | CStr jsstring

fun cellToString :: "('n \<Rightarrow> jsstring) \<Rightarrow> 'n cell \<Rightarrow> jsstring" where
  "cellToString numStr CUndefined = jstr ''undefined''"
| "cellToString numStr CNull = jstr ''null''"
| "cellToString numStr (CBool b) = (if b then jstr ''true'' else jstr ''false'')"
| "cellToString numStr (CNum n) = numStr n"
| "cellToString numStr (CStr s) = s"

text \<open>
  The code units that \<^verbatim>\<open>String.prototype.trim\<close> strips, the white space and the line
  terminators of the language: tab, line feed, vertical tab, form feed, carriage
  return, space, no-break space (\<open>U+00A0\<close>), the Ogham space mark (\<open>U+1680\<close>), the
  spaces \<open>U+2000\<close> to \<open>U+200A\<close>, the line and paragraph separators (\<open>U+2028\<close>,
  \<open>U+2029\<close>), the narrow no-break space (\<open>U+202F\<close>), the medium mathematical space
  (\<open>U+205F\<close>), the ideographic space (\<open>U+3000\<close>) and the byte order mark (\<open>U+FEFF\<close>).
  Each is one code unit, and no surrogate is among them.
\<close>

definition isSpace :: "codeunit \<Rightarrow> bool" where
  "isSpace c =
     (c \<in> {0x0009, 0x000A, 0x000B, 0x000C, 0x000D, 0x0020, 0x00A0, 0x1680,
            0x2028, 0x2029, 0x202F, 0x205F, 0x3000, 0xFEFF}
      \<or> (0x2000 \<le> c \<and> c \<le> 0x200A))"

definition trim :: "jsstring \<Rightarrow> jsstring" where
  "trim s = rev (dropWhile isSpace (rev (dropWhile isSpace s)))"

text \<open>\<^verbatim>\<open>isBlank(v)\<close>: \<^verbatim>\<open>v == null || String(v).trim() === ""\<close>.\<close>

fun isBlank :: "('n \<Rightarrow> jsstring) \<Rightarrow> 'n cell \<Rightarrow> bool" where
  "isBlank numStr CUndefined = True"
| "isBlank numStr CNull = True"
| "isBlank numStr v = (trim (cellToString numStr v) = [])"

text \<open>The separators of a multi-key cell, \<^verbatim>\<open>/[\n|,]+/\<close>.\<close>

definition isSep :: "codeunit \<Rightarrow> bool" where
  "isSep c = (c = 0x000A \<or> c = of_char CHR ''|'' \<or> c = of_char CHR '','')"

function splitSeps :: "jsstring \<Rightarrow> jsstring list" where
  "splitSeps s =
     (let piece = takeWhile (\<lambda>c. \<not> isSep c) s;
          rest = dropWhile (\<lambda>c. \<not> isSep c) s
      in if rest = [] then [piece] else piece # splitSeps (dropWhile isSep rest))"
  by pat_completeness auto
termination
proof (relation "measure length")
  fix s :: jsstring and piece rest
  assume r: "rest = dropWhile (\<lambda>c. \<not> isSep c) s" and ne: "rest \<noteq> []"
  from ne obtain c cs where rc: "rest = c # cs" by (cases rest) auto
  from r ne have "\<not> \<not> isSep (hd rest)" using hd_dropWhile [of "\<lambda>c. \<not> isSep c" s] by simp
  with rc have "isSep c" by simp
  with rc have "length (dropWhile isSep rest) \<le> length cs"
    by (simp add: length_dropWhile_le)
  moreover have "length rest \<le> length s" using r by (simp add: length_dropWhile_le)
  ultimately show "(dropWhile isSep rest, s) \<in> measure length" using rc by simp
qed simp

declare splitSeps.simps [simp del]

fun cellFalsy :: "('n \<Rightarrow> bool) \<Rightarrow> 'n cell \<Rightarrow> bool" where
  "cellFalsy numFalsy CUndefined = True"
| "cellFalsy numFalsy CNull = True"
| "cellFalsy numFalsy (CBool b) = (\<not> b)"
| "cellFalsy numFalsy (CNum n) = numFalsy n"
| "cellFalsy numFalsy (CStr s) = (s = [])"

text \<open>
  \<^verbatim>\<open>String(cell || "").split(/[\n|,]+/g).map(s => s.trim()).filter(Boolean)\<close>
\<close>

definition splitMultiKey :: "('n \<Rightarrow> jsstring) \<Rightarrow> ('n \<Rightarrow> bool) \<Rightarrow> 'n cell \<Rightarrow> jsstring list" where
  "splitMultiKey numStr numFalsy c =
     filter (\<lambda>s. s \<noteq> [])
       (map trim (splitSeps (if cellFalsy numFalsy c then [] else cellToString numStr c)))"

subsection \<open>parseKey\<close>

text \<open>
  The tokens of a key path: a string token from the alternative \<^verbatim>\<open>([^.[]+)\<close>, a
  number token from \<^verbatim>\<open>\[(\d+)\]\<close>.
\<close>

datatype token = PropT jsstring | IdxT nat

definition isStop :: "codeunit \<Rightarrow> bool" where
  "isStop c = (c = of_char CHR ''.'' \<or> c = of_char CHR ''['')"

text \<open>
  The loop \<^verbatim>\<open>while ((m = re.exec(key)))\<close> with the global expression
  \<^verbatim>\<open>/([^.[]+)|\[(\d+)\]/g\<close>: at each position the first alternative takes a maximal
  run of code units other than \<^verbatim>\<open>.\<close> and \<^verbatim>\<open>[\<close>; failing that, the second takes
  \<^verbatim>\<open>[\<close>, one or more digits and \<^verbatim>\<open>]\<close>; failing both, the search moves one
  code unit on. A match is never empty, so \<^verbatim>\<open>m[1]\<close> is truthy whenever the first
  alternative matched.
\<close>

function parseKey :: "jsstring \<Rightarrow> token list" where
  "parseKey [] = []"
| "parseKey (c # cs) =
     (if \<not> isStop c
      then PropT (c # takeWhile (\<lambda>x. \<not> isStop x) cs)
             # parseKey (dropWhile (\<lambda>x. \<not> isStop x) cs)
      else if c = of_char CHR ''['' \<and> takeWhile isDigit cs \<noteq> []
                \<and> (case dropWhile isDigit cs of [] \<Rightarrow> False | d # r \<Rightarrow> d = of_char CHR '']'')
      then IdxT (digitsToNat (takeWhile isDigit cs)) # parseKey (tl (dropWhile isDigit cs))
      else parseKey cs)"
  by pat_completeness auto
termination
  by (relation "measure length")
     (auto simp: length_dropWhile_le less_Suc_eq_le intro: le_trans [OF diff_le_self])

declare parseKey.simps(2) [simp del]

fun isNumber :: "token \<Rightarrow> bool" where
  "isNumber (IdxT n) = True"
| "isNumber (PropT s) = False"

text \<open>The property key that \<^verbatim>\<open>cur[t]\<close> addresses.\<close>

fun keyOfToken :: "token \<Rightarrow> key" where
  "keyOfToken (PropT s) = keyOfString s"
| "keyOfToken (IdxT n) = (if n < 4294967295 then Idx n else Name (showNat n))"

subsection \<open>ensureContainer and setDeep\<close>

text \<open>The container \<^verbatim>\<open>typeof next === "number" ? [] : {}\<close>.\<close>

definition fresh :: "token \<Rightarrow> 'n jsval" where
  "fresh nextToken = (if isNumber nextToken then JArr [] [] else JObj [])"

text \<open>
  \<^verbatim>\<open>ensureContainer(parent, prop, nextToken)\<close> mutates \<open>parent\<close> and returns the child.
  The model returns the parent after the call together with the child, or the
  exception. Its three statements are the three steps below.
\<close>

definition ensureContainer ::
  "'n jsval \<Rightarrow> key \<Rightarrow> token \<Rightarrow> error + ('n jsval \<times> 'n jsval)" where
  "ensureContainer parent prop nextToken =
     (let wantsArray = isNumber nextToken in
      thenE (readProp parent prop) (\<lambda>c0.
      thenE (if isNullish c0
             then writeProp parent prop (if wantsArray then JArr [] [] else JObj [])
             else Inr parent) (\<lambda>p1.
      thenE (if wantsArray \<and> \<not> isArray (getProp p1 prop)
             then writeProp p1 prop (JArr [] []) else Inr p1) (\<lambda>p2.
      thenE (if \<not> wantsArray \<and> isArray (getProp p2 prop)
             then writeProp p2 prop (JObj []) else Inr p2) (\<lambda>p3.
      Inr (p3, getProp p3 prop))))))"

text \<open>
  One iteration of the loop of \<^verbatim>\<open>setDeep\<close> that is not the last: from the current
  container \<open>cur\<close> and the tokens \<open>t\<close> and \<open>next\<close>, the container after the
  iteration's writes and the child the loop descends into.
\<close>

definition descend :: "'n jsval \<Rightarrow> token \<Rightarrow> token \<Rightarrow> error + ('n jsval \<times> 'n jsval)" where
  "descend cur t nextToken =
     (if isNumber t then
        (if \<not> isArray cur then Inl ExpectedArray
         else let cur1 = (if isNullish (getProp cur (keyOfToken t))
                          then putProp cur (keyOfToken t) (fresh nextToken) else cur)
              in Inr (cur1, getProp cur1 (keyOfToken t)))
      else ensureContainer cur (keyOfToken t) nextToken)"

text \<open>
  The loop of \<^verbatim>\<open>setDeep\<close> over the tokens that remain. The source mutates the tree in
  place and walks down with \<open>cur\<close>; the model returns the container \<open>cur\<close> as it is
  after the call (the child written back at its key) and the exception, if one was
  thrown.
\<close>

fun setDeepLoop :: "'n jsval \<Rightarrow> token list \<Rightarrow> 'n jsval \<Rightarrow> 'n jsval \<times> error option" where
  "setDeepLoop cur [] v = (cur, None)"
| "setDeepLoop cur [t] v =
     (case writeProp cur (keyOfToken t) v of
        Inl e \<Rightarrow> (cur, Some e)
      | Inr cur' \<Rightarrow> (cur', None))"
| "setDeepLoop cur (t # nextToken # ts) v =
     (case descend cur t nextToken of
        Inl e \<Rightarrow> (cur, Some e)
      | Inr (cur1, child) \<Rightarrow>
          (case setDeepLoop child (nextToken # ts) v of
             (child', r) \<Rightarrow> (putProp cur1 (keyOfToken t) child', r)))"

definition setDeep :: "'n jsval \<Rightarrow> jsstring \<Rightarrow> 'n jsval \<Rightarrow> 'n jsval \<times> error option" where
  "setDeep obj k v = setDeepLoop obj (parseKey k) v"

subsection \<open>Projecting the rows\<close>

text \<open>
  A row is a record of the sheet: \<^verbatim>\<open>r[col]\<close> for a header \<open>col\<close>. The state of the
  projection is the object \<^verbatim>\<open>outputs\<close> (one tree per locale column) and the list
  \<^verbatim>\<open>warnings\<close>. A warning is the text
  \<^verbatim>\<open>Row ${i + 2} col "${col}" key "${key}": ${e.message}\<close>; the model keeps its four
  parts.
\<close>

record warning =
  wRow :: nat
  wCol :: jsstring
  wKey :: jsstring
  wErr :: error

record 'n build =
  outputs :: "jsstring \<Rightarrow> 'n jsval"
  warnings :: "warning list"

text \<open>The body of the innermost loop, for row \<open>i\<close>, one key and one locale column.\<close>

definition projectCell ::
  "('n \<Rightarrow> jsstring) \<Rightarrow> nat \<Rightarrow> (jsstring \<Rightarrow> 'n cell) \<Rightarrow> jsstring \<Rightarrow> jsstring \<Rightarrow> 'n build \<Rightarrow> 'n build" where
  "projectCell numStr i r k col st =
     (let raw = r col in
      if isBlank numStr raw then st
      else (case setDeep (outputs st col) k (JStr (cellToString numStr raw)) of
              (tree, None) \<Rightarrow> st\<lparr>outputs := (outputs st)(col := tree)\<rparr>
            | (tree, Some e) \<Rightarrow>
                st\<lparr>outputs := (outputs st)(col := tree),
                   warnings := warnings st @ [\<lparr>wRow = i + 2, wCol = col, wKey = k, wErr = e\<rparr>]\<rparr>))"

fun projectCols ::
  "('n \<Rightarrow> jsstring) \<Rightarrow> nat \<Rightarrow> (jsstring \<Rightarrow> 'n cell) \<Rightarrow> jsstring \<Rightarrow> jsstring list \<Rightarrow> 'n build \<Rightarrow> 'n build" where
  "projectCols numStr i r k [] st = st"
| "projectCols numStr i r k (col # cols) st =
     projectCols numStr i r k cols (projectCell numStr i r k col st)"

fun projectKeys ::
  "('n \<Rightarrow> jsstring) \<Rightarrow> nat \<Rightarrow> (jsstring \<Rightarrow> 'n cell) \<Rightarrow> jsstring list \<Rightarrow> jsstring list \<Rightarrow> 'n build \<Rightarrow> 'n build" where
  "projectKeys numStr i r [] localeCols st = st"
| "projectKeys numStr i r (k # ks) localeCols st =
     projectKeys numStr i r ks localeCols (projectCols numStr i r k localeCols st)"

text \<open>The loop over the rows, from row index \<open>i\<close> on.\<close>

fun projectRows ::
  "('n \<Rightarrow> jsstring) \<Rightarrow> ('n \<Rightarrow> bool) \<Rightarrow> jsstring \<Rightarrow> jsstring list \<Rightarrow> nat
     \<Rightarrow> (jsstring \<Rightarrow> 'n cell) list \<Rightarrow> 'n build \<Rightarrow> 'n build" where
  "projectRows numStr numFalsy keyColName localeCols i [] st = st"
| "projectRows numStr numFalsy keyColName localeCols i (r # rows) st =
     projectRows numStr numFalsy keyColName localeCols (i + 1) rows
       (projectKeys numStr i r (splitMultiKey numStr numFalsy (r keyColName)) localeCols st)"

definition project ::
  "('n \<Rightarrow> jsstring) \<Rightarrow> ('n \<Rightarrow> bool) \<Rightarrow> jsstring \<Rightarrow> jsstring list
     \<Rightarrow> (jsstring \<Rightarrow> 'n cell) list \<Rightarrow> 'n build" where
  "project numStr numFalsy keyColName localeCols rows =
     projectRows numStr numFalsy keyColName localeCols 0 rows
       \<lparr>outputs = (\<lambda>col. JObj []), warnings = []\<rparr>"

subsection \<open>createFromRef and fillMissingFromRef\<close>

text \<open>
  \<^verbatim>\<open>createFromRef(refVal, mode)\<close>: a copy of the reference structure whose leaves are
  the reference leaves (mode \<^verbatim>\<open>"ref"\<close>) or empty strings (any other mode).
\<close>

fun createFromRef :: "'n jsval \<Rightarrow> jsstring \<Rightarrow> 'n jsval"
and createFromRefKeys ::
  "(key \<times> 'n jsval) list \<Rightarrow> jsstring \<Rightarrow> (key \<times> 'n jsval) list \<Rightarrow> (key \<times> 'n jsval) list" where
  "createFromRef (JArr xs ps) mode = JArr (map (\<lambda>v. createFromRef v mode) xs) []"
| "createFromRef (JObj es) mode = JObj (createFromRefKeys es mode [])"
| "createFromRef refVal mode = (if mode = jstr ''ref'' then refVal else JStr [])"
| "createFromRefKeys [] mode out = out"
| "createFromRefKeys ((k, v) # es) mode out =
     createFromRefKeys es mode (objSet k (createFromRef v mode) out)"

text \<open>\<^verbatim>\<open>Array.isArray(tgtNode) ? tgtNode : []\<close> and \<^verbatim>\<open>isObject(tgtNode) ? tgtNode : {}\<close>.\<close>

fun elemsOf :: "'n jsval \<Rightarrow> 'n jsval list" where
  "elemsOf (JArr xs ps) = xs"
| "elemsOf _ = []"

fun namedOf :: "'n jsval \<Rightarrow> (key \<times> 'n jsval) list" where
  "namedOf (JArr xs ps) = ps"
| "namedOf _ = []"

fun propsOf :: "'n jsval \<Rightarrow> (key \<times> 'n jsval) list" where
  "propsOf (JObj es) = es"
| "propsOf _ = []"

text \<open>
  \<^verbatim>\<open>fillMissingFromRef(target, ref, mode)\<close> fills the target in place and returns it;
  the model returns the target after the call. A target that is not of the
  reference's kind is replaced by an empty container at the top of the call; the
  recursive calls are made only where both values are objects or both are arrays,
  so they mutate the child they are given, and the model writes the child back at
  its place. \<open>fillElems\<close> is the loop over the reference array from index \<open>i\<close> on,
  \<open>fillProps\<close> the loop over the reference's properties; both carry the target's
  elements or properties. A child that is read through the prototype chain and is
  an object is \<^verbatim>\<open>Object.prototype\<close> itself: the recursive call then writes into that
  shared object and leaves the target's own properties as they are.
\<close>

function (sequential) fillMissingFromRef :: "'n jsval \<Rightarrow> 'n jsval \<Rightarrow> jsstring \<Rightarrow> 'n jsval"
and fillElems :: "'n jsval list \<Rightarrow> 'n jsval list \<Rightarrow> nat \<Rightarrow> jsstring \<Rightarrow> 'n jsval list"
and fillProps ::
  "(key \<times> 'n jsval) list \<Rightarrow> (key \<times> 'n jsval) list \<Rightarrow> jsstring \<Rightarrow> (key \<times> 'n jsval) list" where
  "fillMissingFromRef target (JArr refArr rps) mode =
     JArr (fillElems (elemsOf target) refArr 0 mode) (namedOf target)"
| "fillMissingFromRef target (JObj refObj) mode =
     JObj (fillProps (propsOf target) refObj mode)"
| "fillMissingFromRef target refLeaf mode = target"
| "fillElems tgt [] i mode = tgt"
| "fillElems tgt (refVal # rs) i mode =
     fillElems
       (if isUndefined (arrGet tgt i) then arrSet tgt i (createFromRef refVal mode)
        else if (isObject refVal \<and> isObject (arrGet tgt i))
                \<or> (isArray refVal \<and> isArray (arrGet tgt i))
        then arrSet tgt i (fillMissingFromRef (arrGet tgt i) refVal mode)
        else tgt)
       rs (i + 1) mode"
| "fillProps tgt [] mode = tgt"
| "fillProps tgt ((k, refVal) # es) mode =
     fillProps
       (if \<not> keyIn k tgt \<or> isUndefined (objRead tgt k)
        then objSet k (createFromRef refVal mode) tgt
        else if (isObject refVal \<and> isObject (objRead tgt k))
                \<or> (isArray refVal \<and> isArray (objRead tgt k))
        then (if hasOwn k tgt
              then objSet k (fillMissingFromRef (objRead tgt k) refVal mode) tgt
              else tgt)
        else tgt)
       es mode"
  by pat_completeness auto
termination
  by (relation "measure (\<lambda>x. case x of
        Inl (t, r, m) \<Rightarrow> 2 * size r + 1
      | Inr (Inl (ts, rs, i, m)) \<Rightarrow> 2 * size_list size rs
      | Inr (Inr (tps, es, m)) \<Rightarrow> 2 * size_list (size_prod (\<lambda>x. 0) size) es)")
     auto

section \<open>sync-structure.mjs: the reference merge\<close>

text \<open>
  \<^verbatim>\<open>missingLeaf(refLeaf)\<close>, with the global \<^verbatim>\<open>missingMode\<close> as a parameter: the
  lower-cased argument of \<^verbatim>\<open>--missing\<close>, \<^verbatim>\<open>"empty"\<close> when none is given.
\<close>

definition missingLeaf :: "jsstring \<Rightarrow> 'n jsval \<Rightarrow> 'n jsval" where
  "missingLeaf missingMode refLeaf =
     (if missingMode = jstr ''null'' then JNull
      else if missingMode = jstr ''ref'' then refLeaf
      else if isString refLeaf then JStr []
      else (if isNullish refLeaf then JStr [] else JStr []))"

text \<open>The report \<^verbatim>\<open>stats = { missing: [], extra: [] }\<close>, threaded through the merge.\<close>

record stats =
  missing :: "jsstring list"
  extra :: "jsstring list"

definition pushMissing :: "jsstring \<Rightarrow> stats \<Rightarrow> stats" where
  "pushMissing p st = st\<lparr>missing := missing st @ [p]\<rparr>"

definition pushExtra :: "jsstring \<Rightarrow> stats \<Rightarrow> stats" where
  "pushExtra p st = st\<lparr>extra := extra st @ [p]\<rparr>"

text \<open>The paths \<^verbatim>\<open>`${keyPath}[${i}]`\<close> and \<^verbatim>\<open>keyPath ? `${keyPath}.${k}` : k\<close>.\<close>

definition arrPath :: "jsstring \<Rightarrow> nat \<Rightarrow> jsstring" where
  "arrPath keyPath i = keyPath @ jstr ''['' @ showNat i @ jstr '']''"

definition objPath :: "jsstring \<Rightarrow> key \<Rightarrow> jsstring" where
  "objPath keyPath k =
     (if keyPath = [] then stringOfKey k else keyPath @ jstr ''.'' @ stringOfKey k)"

text \<open>\<^verbatim>\<open>isObject(v) || Array.isArray(v)\<close>\<close>

definition isContainer :: "'n jsval \<Rightarrow> bool" where
  "isContainer v = (isObject v \<or> isArray v)"

text \<open>The element at the current position of an array that may be exhausted.\<close>

fun headOr :: "'n jsval list \<Rightarrow> 'n jsval" where
  "headOr [] = JUndefined"
| "headOr (t # ts) = t"

text \<open>
  The second loop of the object case: the keys of the target that are not
  \<^verbatim>\<open>in\<close> the reference, in the target's order.
\<close>

fun tgtKeysLoop ::
  "(key \<times> 'n jsval) list \<Rightarrow> (key \<times> 'n jsval) list \<Rightarrow> jsstring
     \<Rightarrow> (key \<times> 'n jsval) list \<Rightarrow> stats \<Rightarrow> (key \<times> 'n jsval) list \<times> stats" where
  "tgtKeysLoop refObj [] keyPath out st = (out, st)"
| "tgtKeysLoop refObj ((k, tgtVal) # es) keyPath out st =
     (if keyIn k refObj then tgtKeysLoop refObj es keyPath out st
      else tgtKeysLoop refObj es keyPath (objSet k tgtVal out) (pushExtra (objPath keyPath k) st))"

text \<open>
  \<^verbatim>\<open>reorderLike(refNode, tgtNode, keyPath, stats)\<close>. The loops over
  \<^verbatim>\<open>Object.keys(o)\<close> that read \<^verbatim>\<open>o[k]\<close> run over the properties \<open>(k, o[k])\<close> of the
  object in enumeration order. The array loop runs over the
  positions \<open>i = 0, 1, ...\<close> below the longer length: \<open>arrayLoop\<close> holds the elements
  of both arrays from position \<open>i\<close> on, an exhausted array reading \<^verbatim>\<open>undefined\<close>.
  \<open>refKeysLoop\<close> is the first loop of the object case, over the reference's
  properties in their order; \<open>tgtObj\<close> holds the own properties of the object
  \<^verbatim>\<open>isObject(tgtNode) ? tgtNode : {}\<close>, which the loop tests with \<^verbatim>\<open>k in tgtObj\<close>
  and reads with \<^verbatim>\<open>tgtObj[k]\<close>. Both loops carry the output built so far and the
  report.
\<close>

function (sequential) reorderLike ::
  "jsstring \<Rightarrow> 'n jsval \<Rightarrow> 'n jsval \<Rightarrow> jsstring \<Rightarrow> stats \<Rightarrow> 'n jsval \<times> stats"
and arrayLoop ::
  "jsstring \<Rightarrow> 'n jsval list \<Rightarrow> 'n jsval list \<Rightarrow> nat \<Rightarrow> jsstring
     \<Rightarrow> 'n jsval list \<Rightarrow> stats \<Rightarrow> 'n jsval list \<times> stats"
and refKeysLoop ::
  "jsstring \<Rightarrow> (key \<times> 'n jsval) list \<Rightarrow> (key \<times> 'n jsval) list \<Rightarrow> jsstring
     \<Rightarrow> (key \<times> 'n jsval) list \<Rightarrow> stats \<Rightarrow> (key \<times> 'n jsval) list \<times> stats" where
  "reorderLike m (JArr refArr rps) tgtNode keyPath st =
     (case arrayLoop m refArr (elemsOf tgtNode) 0 keyPath [] st of
        (out, st') \<Rightarrow> (JArr out [], st'))"
| "reorderLike m (JObj refObj) tgtNode keyPath st =
     (case refKeysLoop m refObj (propsOf tgtNode) keyPath [] st of
        (out1, st1) \<Rightarrow>
          (case tgtKeysLoop refObj (propsOf tgtNode) keyPath out1 st1 of
             (out, st') \<Rightarrow> (JObj out, st')))"
| "reorderLike m refNode tgtNode keyPath st =
     (if isUndefined tgtNode
      then (missingLeaf m refNode, pushMissing (if keyPath = [] then jstr ''(root)'' else keyPath) st)
      else (tgtNode, st))"
| "arrayLoop m [] [] i keyPath out st = (out, st)"
| "arrayLoop m [] (tgtVal # ts) i keyPath out st =
     (if \<not> isUndefined tgtVal
      then arrayLoop m [] ts (i + 1) keyPath (out @ [tgtVal]) (pushExtra (arrPath keyPath i) st)
      else arrayLoop m [] ts (i + 1) keyPath
             (out @ [missingLeaf m JUndefined]) (pushMissing (arrPath keyPath i) st))"
| "arrayLoop m (refVal # rs) tgts i keyPath out st =
     (if isUndefined refVal \<and> \<not> isUndefined (headOr tgts)
      then arrayLoop m rs (tl tgts) (i + 1) keyPath
             (out @ [headOr tgts]) (pushExtra (arrPath keyPath i) st)
      else if isUndefined (headOr tgts)
      then (case (if isContainer refVal
                  then reorderLike m refVal JUndefined (arrPath keyPath i) st
                  else (missingLeaf m refVal, st)) of
              (v, st1) \<Rightarrow> arrayLoop m rs (tl tgts) (i + 1) keyPath
                            (out @ [v]) (pushMissing (arrPath keyPath i) st1))
      else (case (if isContainer refVal
                  then reorderLike m refVal (headOr tgts) (arrPath keyPath i) st
                  else (headOr tgts, st)) of
              (v, st1) \<Rightarrow> arrayLoop m rs (tl tgts) (i + 1) keyPath (out @ [v]) st1))"
| "refKeysLoop m [] tgtObj keyPath out st = (out, st)"
| "refKeysLoop m ((k, refVal) # es) tgtObj keyPath out st =
     (if \<not> keyIn k tgtObj
      then (case (if isContainer refVal
                  then reorderLike m refVal JUndefined (objPath keyPath k) st
                  else (missingLeaf m refVal, st)) of
              (v, st1) \<Rightarrow> refKeysLoop m es tgtObj keyPath
                            (objSet k v out) (pushMissing (objPath keyPath k) st1))
      else (case (if isContainer refVal
                  then reorderLike m refVal (objRead tgtObj k) (objPath keyPath k) st
                  else (objRead tgtObj k, st)) of
              (v, st1) \<Rightarrow> refKeysLoop m es tgtObj keyPath (objSet k v out) st1))"
  by pat_completeness auto
termination
  by (relation "inv_image (less_than <*lex*> less_than) (\<lambda>x. case x of
        Inl (m, r, t, p, st) \<Rightarrow> (size r, 0)
      | Inr (Inl (m, rs, ts, i, p, out, st)) \<Rightarrow> (size_list size rs, length ts)
      | Inr (Inr (m, es, tobj, p, out, st)) \<Rightarrow> (size_list (size_prod (\<lambda>x. 0) size) es, 0))")
     auto

text \<open>
  The main program: \<^verbatim>\<open>reorderLike(ref, tgt, "", stats)\<close> on an empty report.
\<close>

definition emptyStats :: stats where
  "emptyStats = \<lparr>missing = [], extra = []\<rparr>"

definition normalize :: "jsstring \<Rightarrow> 'n jsval \<Rightarrow> 'n jsval \<Rightarrow> 'n jsval \<times> stats" where
  "normalize m ref tgt = reorderLike m ref tgt [] emptyStats"

section \<open>Well-formed trees and positions\<close>

text \<open>
  What a YAML parse yields: no \<^verbatim>\<open>undefined\<close> and no function anywhere, no named
  property on an array, and in every object the keys distinct and in enumeration
  order (index keys ascending, then the names).
\<close>

fun keyBefore :: "key \<Rightarrow> key \<Rightarrow> bool" where
  "keyBefore (Idx n) (Idx n') = (n < n')"
| "keyBefore (Idx n) (Name s) = True"
| "keyBefore (Name s) (Idx n) = False"
| "keyBefore (Name s) (Name s') = (s \<noteq> s')"

definition keysOrdered :: "(key \<times> 'v) list \<Rightarrow> bool" where
  "keysOrdered es = sorted_wrt keyBefore (map fst es)"

fun yamlValue :: "'n jsval \<Rightarrow> bool"
and yamlValues :: "'n jsval list \<Rightarrow> bool"
and yamlProps :: "(key \<times> 'n jsval) list \<Rightarrow> bool" where
  "yamlValue JUndefined = False"
| "yamlValue (JFunction f) = False"
| "yamlValue (JArr xs ps) = (ps = [] \<and> yamlValues xs)"
| "yamlValue (JObj es) = (keysOrdered es \<and> yamlProps es)"
| "yamlValue v = True"
| "yamlValues [] = True"
| "yamlValues (x # xs) = (yamlValue x \<and> yamlValues xs)"
| "yamlProps [] = True"
| "yamlProps ((k, v) # es) = (yamlValue v \<and> yamlProps es)"

text \<open>
  What the merge needs of the target it is given: its elements, if it is an array,
  and its properties, if it is an object, are as a YAML parse yields them. This
  holds of a missing target, of every value of a YAML parse, and of a value that
  was read through the prototype chain.
\<close>

definition targetShaped :: "'n jsval \<Rightarrow> bool" where
  "targetShaped t =
     (yamlValues (elemsOf t) \<and> yamlProps (propsOf t) \<and> keysOrdered (propsOf t))"

text \<open>
  A position in a tree: a sequence of steps, into an array by index or into an
  object by key, as the report's paths \<^verbatim>\<open>[i]\<close> and \<^verbatim>\<open>.k\<close> distinguish them. The
  node at a position is read through own properties; where there is none it is
  \<^verbatim>\<open>undefined\<close>.
\<close>

datatype step = AtIndex nat | AtKey key

fun nodeAt :: "'n jsval \<Rightarrow> step list \<Rightarrow> 'n jsval" where
  "nodeAt v [] = v"
| "nodeAt (JArr xs ps) (AtIndex i # pos) = nodeAt (arrGet xs i) pos"
| "nodeAt (JObj es) (AtKey k # pos) = nodeAt (objGet es k) pos"
| "nodeAt v (s # pos) = JUndefined"

text \<open>A leaf is a scalar: \<^verbatim>\<open>null\<close>, a boolean, a number or a string.\<close>

fun isLeaf :: "'n jsval \<Rightarrow> bool" where
  "isLeaf JNull = True"
| "isLeaf (JBool b) = True"
| "isLeaf (JNum n) = True"
| "isLeaf (JStr s) = True"
| "isLeaf v = False"

text \<open>
  Keys that do not name a member of \<^verbatim>\<open>Object.prototype\<close>: a step of a position with
  such a key, and a tree all of whose object keys are such.
\<close>

fun plainStep :: "step \<Rightarrow> bool" where
  "plainStep (AtIndex i) = True"
| "plainStep (AtKey k) = (\<not> inherited k)"

fun plainKeys :: "'n jsval \<Rightarrow> bool"
and plainKeysList :: "'n jsval list \<Rightarrow> bool"
and plainKeysProps :: "(key \<times> 'n jsval) list \<Rightarrow> bool" where
  "plainKeys (JArr xs ps) = plainKeysList xs"
| "plainKeys (JObj es) = plainKeysProps es"
| "plainKeys v = True"
| "plainKeysList [] = True"
| "plainKeysList (x # xs) = (plainKeys x \<and> plainKeysList xs)"
| "plainKeysProps [] = True"
| "plainKeysProps ((k, v) # es) = (\<not> inherited k \<and> plainKeys v \<and> plainKeysProps es)"

text \<open>
  \<open>stepsFit t pos\<close>: on the way to the position, every node that the target has is a
  container of the kind that the next step enters, an array for an index and an
  object for a key, until the target ends.
\<close>

fun stepsFit :: "'n jsval \<Rightarrow> step list \<Rightarrow> bool" where
  "stepsFit t [] = True"
| "stepsFit t (AtIndex i # pos) =
     (isUndefined t \<or> (isArray t \<and> stepsFit (arrGet (elemsOf t) i) pos))"
| "stepsFit t (AtKey k # pos) =
     (isUndefined t \<or> (isObject t \<and> stepsFit (objGet (propsOf t) k) pos))"

text \<open>
  The iterations of the loop of \<^verbatim>\<open>setDeep\<close>: the current container and the tokens
  from \<open>t\<close> on, at the start of each iteration that the loop reaches.
\<close>

fun iterations :: "'n jsval \<Rightarrow> token list \<Rightarrow> ('n jsval \<times> token list) list" where
  "iterations cur [] = []"
| "iterations cur [t] = [(cur, [t])]"
| "iterations cur (t # nextToken # ts) =
     (cur, t # nextToken # ts) #
       (case descend cur t nextToken of
          Inl e \<Rightarrow> []
        | Inr (cur1, child) \<Rightarrow> iterations child (nextToken # ts))"

text \<open>An iteration at an index step that is not the last, on a container that is no array.\<close>

fun indexStepOffArray :: "'n jsval \<times> token list \<Rightarrow> bool" where
  "indexStepOffArray (cur, IdxT n # nextToken # ts) = (\<not> isArray cur)"
| "indexStepOffArray (cur, ts) = False"

text \<open>
  The missing-value policy in the words of the specification: under \<^verbatim>\<open>ref\<close> a new
  leaf is the reference leaf, under \<^verbatim>\<open>null\<close> it is \<^verbatim>\<open>null\<close>, and otherwise it is
  the empty string; a missing object or array is cloned with every leaf so
  transformed.
\<close>

definition policyLeaf :: "jsstring \<Rightarrow> 'n jsval \<Rightarrow> 'n jsval" where
  "policyLeaf m leaf =
     (if m = jstr ''ref'' then leaf else if m = jstr ''null'' then JNull else JStr [])"

fun policyClone :: "jsstring \<Rightarrow> 'n jsval \<Rightarrow> 'n jsval"
and policyClones :: "jsstring \<Rightarrow> 'n jsval list \<Rightarrow> 'n jsval list"
and policyCloneProps :: "jsstring \<Rightarrow> (key \<times> 'n jsval) list \<Rightarrow> (key \<times> 'n jsval) list" where
  "policyClone m (JArr xs ps) = JArr (policyClones m xs) []"
| "policyClone m (JObj es) = JObj (policyCloneProps m es)"
| "policyClone m leaf = policyLeaf m leaf"
| "policyClones m [] = []"
| "policyClones m (x # xs) = policyClone m x # policyClones m xs"
| "policyCloneProps m [] = []"
| "policyCloneProps m ((k, v) # es) = (k, policyClone m v) # policyCloneProps m es"

text \<open>
  The results of the merge at one child, read off a call on the empty report:
  the value that the loops put at a position the target lacks, and at a position
  where both trees have a value.
\<close>

definition appendStats :: "stats \<Rightarrow> stats \<Rightarrow> stats" where
  "appendStats a b = \<lparr>missing = missing a @ missing b, extra = extra a @ extra b\<rparr>"

definition missingChild :: "jsstring \<Rightarrow> 'n jsval \<Rightarrow> jsstring \<Rightarrow> 'n jsval" where
  "missingChild m refVal p =
     (if isContainer refVal then fst (reorderLike m refVal JUndefined p emptyStats)
      else missingLeaf m refVal)"

definition presentChild :: "jsstring \<Rightarrow> 'n jsval \<Rightarrow> 'n jsval \<Rightarrow> jsstring \<Rightarrow> 'n jsval" where
  "presentChild m refVal tgtVal p =
     (if isContainer refVal then fst (reorderLike m refVal tgtVal p emptyStats) else tgtVal)"

text \<open>The element that the array loop pushes at a position.\<close>

definition arrayElem :: "jsstring \<Rightarrow> 'n jsval \<Rightarrow> 'n jsval \<Rightarrow> jsstring \<Rightarrow> 'n jsval" where
  "arrayElem m refVal tgtVal p =
     (if isUndefined refVal \<and> \<not> isUndefined tgtVal then tgtVal
      else if isUndefined tgtVal then missingChild m refVal p
      else presentChild m refVal tgtVal p)"

text \<open>
  What one iteration of a loop adds to an empty report: at a position of the
  array loop, and at a key of the reference in the object loop (\<open>present\<close> is
  \<^verbatim>\<open>k in tgtObj\<close>).
\<close>

definition elemReport :: "jsstring \<Rightarrow> 'n jsval \<Rightarrow> 'n jsval \<Rightarrow> jsstring \<Rightarrow> stats" where
  "elemReport m refVal tgtVal p =
     (if isUndefined refVal \<and> \<not> isUndefined tgtVal then pushExtra p emptyStats
      else if isUndefined tgtVal
      then pushMissing p (if isContainer refVal
                          then snd (reorderLike m refVal JUndefined p emptyStats) else emptyStats)
      else (if isContainer refVal
            then snd (reorderLike m refVal tgtVal p emptyStats) else emptyStats))"

definition propValue :: "jsstring \<Rightarrow> 'n jsval \<Rightarrow> bool \<Rightarrow> 'n jsval \<Rightarrow> jsstring \<Rightarrow> 'n jsval" where
  "propValue m refVal present tgtVal p =
     (if present then presentChild m refVal tgtVal p else missingChild m refVal p)"

definition propReport :: "jsstring \<Rightarrow> 'n jsval \<Rightarrow> bool \<Rightarrow> 'n jsval \<Rightarrow> jsstring \<Rightarrow> stats" where
  "propReport m refVal present tgtVal p =
     (if \<not> present
      then pushMissing p (if isContainer refVal
                          then snd (reorderLike m refVal JUndefined p emptyStats) else emptyStats)
      else (if isContainer refVal
            then snd (reorderLike m refVal tgtVal p emptyStats) else emptyStats))"

text \<open>The properties that the first loop of the object case sets, in its order.\<close>

definition refVals ::
  "jsstring \<Rightarrow> (key \<times> 'n jsval) list \<Rightarrow> (key \<times> 'n jsval) list \<Rightarrow> jsstring \<Rightarrow> (key \<times> 'n jsval) list" where
  "refVals m es tgtObj p =
     map (\<lambda>e. (fst e, if keyIn (fst e) tgtObj
                       then presentChild m (snd e) (objRead tgtObj (fst e)) (objPath p (fst e))
                       else missingChild m (snd e) (objPath p (fst e)))) es"

text \<open>A sequence of assignments \<^verbatim>\<open>out[k] = v\<close>.\<close>

fun setAll :: "(key \<times> 'v) list \<Rightarrow> (key \<times> 'v) list \<Rightarrow> (key \<times> 'v) list" where
  "setAll out [] = out"
| "setAll out ((k, v) # kvs) = setAll (objSet k v out) kvs"

text \<open>
  What \<open>fillElems\<close> and \<open>fillProps\<close> leave at one position: a fresh copy where the
  target has no value, the filled child where both values are objects or both are
  arrays, and the target's value otherwise.
\<close>

definition filledChild :: "'n jsval \<Rightarrow> 'n jsval \<Rightarrow> jsstring \<Rightarrow> 'n jsval" where
  "filledChild tgtVal refVal mode =
     (if isUndefined tgtVal then createFromRef refVal mode
      else if (isObject refVal \<and> isObject tgtVal) \<or> (isArray refVal \<and> isArray tgtVal)
      then fillMissingFromRef tgtVal refVal mode
      else tgtVal)"

section \<open>Properties of the build phase\<close>

subsection \<open>Reading and writing properties\<close>

lemma map_of_objSet: "map_of (objSet k v es) = (map_of es)(k \<mapsto> v)"
  by (induction es) (auto simp: fun_eq_iff)

lemma objGet_objSet: "objGet (objSet k v es) k' = (if k' = k then v else objGet es k')"
  by (simp add: objGet_def map_of_objSet)

lemma objSet_overwrite: "objSet k v (objSet k w es) = objSet k v es"
  by (induction es) auto

lemma arrGet_arrSet: "arrGet (arrSet xs n v) n = v"
  by (auto simp: arrGet_def arrSet_def nth_append)

lemma arrSet_overwrite: "arrSet (arrSet xs n w) n v = arrSet xs n v"
  by (auto simp: arrSet_def list_update_append)

lemma isArray_putProp [simp]: "isArray (putProp c k x) = isArray c"
  by (cases "(c, k, x)" rule: putProp.cases) auto

lemma isObject_putProp [simp]: "isObject (putProp c k x) = isObject c"
  by (cases "(c, k, x)" rule: putProp.cases) auto

lemma getProp_putProp: "isObject c \<or> isArray c \<Longrightarrow> getProp (putProp c k x) k = x"
  by (cases "(c, k, x)" rule: putProp.cases) (auto simp: objGet_objSet arrGet_arrSet)

lemma putProp_overwrite: "putProp (putProp c k w) k x = putProp c k x"
  by (cases "(c, k, x)" rule: putProp.cases) (auto simp: objSet_overwrite arrSet_overwrite)

lemma isNullish_container: "isObject c \<or> isArray c \<Longrightarrow> \<not> isNullish c"
  by (cases c) auto

lemma isNumber_fresh [simp]: "isArray (fresh t :: 'n jsval) = isNumber t" "isObject (fresh t :: 'n jsval) = (\<not> isNumber t)"
  "\<not> isNullish (fresh t :: 'n jsval)"
  by (auto simp: fresh_def)

lemma readProp_container: "isObject c \<or> isArray c \<Longrightarrow> readProp c k = Inr (getProp c k)"
  by (simp add: readProp_def isNullish_container)

lemma writeProp_container: "isObject c \<or> isArray c \<Longrightarrow> writeProp c k x = Inr (putProp c k x)"
  by (simp add: writeProp_def)

lemma writeProp_Inl: "writeProp c k x = Inl e \<Longrightarrow> e = TypeError"
  by (auto simp: writeProp_def split: if_splits)

lemma thenE_Inr: "thenE r f = Inr y \<longleftrightarrow> (\<exists>x. r = Inr x \<and> f x = Inr y)"
  by (cases r) (auto simp: thenE_def)

lemma thenE_Inl: "thenE r f = Inl e \<longleftrightarrow> (r = Inl e \<or> (\<exists>x. r = Inr x \<and> f x = Inl e))"
  by (cases r) (auto simp: thenE_def)

lemma getProp_primitive: "\<not> isObject c \<Longrightarrow> \<not> isArray c \<Longrightarrow> getProp c k = JUndefined"
  by (cases c) auto

text \<open>What a successful ensureContainer returns.\<close>

lemma ensureContainer_Inl: "ensureContainer c k t = Inl e \<Longrightarrow> e = TypeError"
  by (auto simp: ensureContainer_def Let_def thenE_Inl readProp_def dest: writeProp_Inl split: if_splits)

lemma ensureContainer_Inr:
  assumes "ensureContainer c k t = Inr (c1, child)"
  shows "(isObject c \<or> isArray c) \<and> isArray c1 = isArray c \<and> isObject c1 = isObject c
         \<and> getProp c1 k = child \<and> \<not> isNullish child \<and> (isNumber t \<longleftrightarrow> isArray child)
         \<and> (c1 = c \<or> (c1 = putProp c k (fresh t) \<and> child = fresh t))"
proof -
  have cont: "isObject c \<or> isArray c"
  proof (rule ccontr)
    assume n: "\<not> (isObject c \<or> isArray c)"
    then have "getProp c k = JUndefined" by (simp add: getProp_primitive)
    with n assms show False
      by (auto simp: ensureContainer_def Let_def thenE_Inr readProp_def writeProp_def split: if_splits)
  qed
  show ?thesis
  proof (cases "isNullish (getProp c k)")
    case True
    with cont assms show ?thesis
      by (auto simp: ensureContainer_def Let_def thenE_def readProp_container writeProp_container
          getProp_putProp fresh_def split: if_splits)
  next
    case False
    note nn = this
    show ?thesis
    proof (cases "isNumber t")
      case True
      with nn cont assms show ?thesis
        by (auto simp: ensureContainer_def Let_def thenE_def readProp_container writeProp_container
            getProp_putProp fresh_def split: if_splits)
    next
      case False
      with nn cont assms show ?thesis
        by (auto simp: ensureContainer_def Let_def thenE_def readProp_container writeProp_container
            getProp_putProp fresh_def split: if_splits)
    qed
  qed
qed

lemma descend_Inl:
  "descend c t nx = Inl e \<Longrightarrow> (e = ExpectedArray \<longleftrightarrow> isNumber t \<and> \<not> isArray c)"
  by (auto simp: descend_def Let_def dest: ensureContainer_Inl split: if_splits)

lemma descend_Inr:
  assumes "descend c t nx = Inr (c1, child)"
  shows "(isObject c \<or> isArray c) \<and> isArray c1 = isArray c \<and> isObject c1 = isObject c
         \<and> getProp c1 (keyOfToken t) = child \<and> \<not> isNullish child
         \<and> (\<not> isNumber t \<longrightarrow> (isNumber nx \<longleftrightarrow> isArray child))
         \<and> (isNumber t \<longrightarrow> isArray c)"
proof (cases "isNumber t")
  case True
  with assms show ?thesis
    by (auto simp: descend_def Let_def getProp_putProp split: if_splits)
next
  case False
  with assms have "ensureContainer c (keyOfToken t) nx = Inr (c1, child)"
    by (simp add: descend_def)
  from ensureContainer_Inr [OF this] False show ?thesis by auto
qed

subsection \<open>The loop of setDeep\<close>

lemma setDeepLoop_kind:
  "isArray (fst (setDeepLoop cur ts v)) = isArray cur \<and> isObject (fst (setDeepLoop cur ts v)) = isObject cur"
proof (induction cur ts v rule: setDeepLoop.induct)
  case (1 cur v)
  show ?case by simp
next
  case (2 cur t v)
  show ?case by (auto simp: writeProp_def)
next
  case (3 cur t nx ts v)
  show ?case
  proof (cases "descend cur t nx")
    case (Inl e)
    then show ?thesis by simp
  next
    case (Inr p)
    obtain c1 child where p: "p = (c1, child)" by (cases p)
    from descend_Inr [OF Inr [unfolded p]] Inr p show ?thesis
      by (simp split: prod.splits)
  qed
qed

lemma setDeepLoop_success_container:
  "snd (setDeepLoop cur (t # ts) v) = None \<Longrightarrow> isObject cur \<or> isArray cur"
proof (cases ts)
  case Nil
  assume "snd (setDeepLoop cur (t # ts) v) = None"
  with Nil show ?thesis by (auto simp: writeProp_def split: if_splits)
next
  case (Cons nx ts')
  assume a: "snd (setDeepLoop cur (t # ts) v) = None"
  show ?thesis
  proof (cases "descend cur t nx")
    case (Inl e)
    with a Cons show ?thesis by simp
  next
    case (Inr p)
    obtain c1 child where p: "p = (c1, child)" by (cases p)
    from descend_Inr [OF Inr [unfolded p]] show ?thesis by simp
  qed
qed

lemma descend_again:
  assumes d: "descend c t nx = Inr (c1, child)"
    and k: "isArray child' = isArray child" "isObject child' \<or> isArray child'"
  shows "descend (putProp c1 (keyOfToken t) child') t nx = Inr (putProp c1 (keyOfToken t) child', child')"
proof -
  note f = descend_Inr [OF d]
  from f have c1: "isObject c1 \<or> isArray c1" by auto
  have nn: "\<not> isNullish child'" using k(2) by (rule isNullish_container)
  have g: "getProp (putProp c1 (keyOfToken t) child') (keyOfToken t) = child'"
    using c1 by (rule getProp_putProp)
  have c1': "isObject (putProp c1 (keyOfToken t) child') \<or> isArray (putProp c1 (keyOfToken t) child')"
    using c1 by simp
  show ?thesis
  proof (cases "isNumber t")
    case True
    with f g nn show ?thesis by (simp add: descend_def Let_def)
  next
    case False
    with f k have "isNumber nx \<longleftrightarrow> isArray child'" by simp
    with False g nn c1' show ?thesis
      by (simp add: descend_def ensureContainer_def Let_def thenE_def readProp_container)
  qed
qed

lemma setDeepLoop_idem:
  "snd (setDeepLoop cur ts v) = None \<Longrightarrow>
   setDeepLoop (fst (setDeepLoop cur ts v)) ts v = (fst (setDeepLoop cur ts v), None)"
proof (induction cur ts v rule: setDeepLoop.induct)
  case (1 cur v)
  show ?case by simp
next
  case (2 cur t v)
  then have c: "isObject cur \<or> isArray cur" by (auto simp: writeProp_def split: if_splits)
  then show ?case by (simp add: writeProp_container putProp_overwrite)
next
  case (3 cur t nx ts v)
  show ?case
  proof (cases "descend cur t nx")
    case (Inl e)
    with 3(2) show ?thesis by simp
  next
    case (Inr p)
    obtain c1 child where p: "p = (c1, child)" by (cases p)
    note d = Inr [unfolded p]
    obtain child' r where rec: "setDeepLoop child (nx # ts) v = (child', r)"
      by (cases "setDeepLoop child (nx # ts) v")
    from 3(2) d rec have r: "r = None" by simp
    from rec r have s: "snd (setDeepLoop child (nx # ts) v) = None" by simp
    from 3(1) [OF d refl s] rec
    have ih: "setDeepLoop child' (nx # ts) v = (child', None)" by simp
    from setDeepLoop_success_container [OF s] have cc: "isObject child \<or> isArray child" .
    from setDeepLoop_kind [of child "nx # ts" v] rec
    have kk: "isArray child' = isArray child" "isObject child' = isObject child" by simp_all
    with cc have k2: "isObject child' \<or> isArray child'" by simp
    from descend_again [OF d kk(1) k2]
    have d2: "descend (putProp c1 (keyOfToken t) child') t nx
              = Inr (putProp c1 (keyOfToken t) child', child')" .
    have res: "setDeepLoop cur (t # nx # ts) v = (putProp c1 (keyOfToken t) child', None)"
      using d rec r by simp
    show ?thesis
      unfolding res fst_conv
      by (simp add: d2 ih putProp_overwrite)
  qed
qed

lemma setDeepLoop_fresh:
  "snd (setDeepLoop (fresh nx) (nx # ts) (v :: 'a jsval)) = None"
proof (induction ts arbitrary: nx)
  case Nil
  show ?case by (simp add: writeProp_def)
next
  case (Cons n2 ts)
  have d: "descend (fresh nx :: 'a jsval) nx n2 = Inr (putProp (fresh nx) (keyOfToken nx) (fresh n2), fresh n2)"
  proof (cases "isNumber nx")
    case True
    then have "getProp (fresh nx :: 'a jsval) (keyOfToken nx) = JUndefined"
      by (cases "keyOfToken nx") (auto simp: fresh_def arrGet_def objGet_def)
    with True show ?thesis by (simp add: descend_def Let_def getProp_putProp)
  next
    case False
    then have g: "getProp (fresh nx :: 'a jsval) (keyOfToken nx) = JUndefined"
      by (auto simp: fresh_def objGet_def)
    have c: "isObject (fresh nx :: 'a jsval) \<or> isArray (fresh nx :: 'a jsval)" by simp
    have c': "isObject (putProp (fresh nx :: 'a jsval) (keyOfToken nx) (fresh n2 :: 'a jsval))
              \<or> isArray (putProp (fresh nx :: 'a jsval) (keyOfToken nx) (fresh n2 :: 'a jsval))" by simp
    from False g show ?thesis
      by (simp add: descend_def ensureContainer_def Let_def thenE_def readProp_container [OF c]
          writeProp_container [OF c] getProp_putProp [OF c] fresh_def [of n2])
  qed
  from Cons [of n2] d show ?case by (auto split: prod.splits)
qed

lemma descend_replaces:
  assumes c: "isObject cur \<or> isArray cur" and t: "\<not> isNumber t"
    and nn: "\<not> isNullish (getProp cur (keyOfToken t))"
    and w: "(isNumber nx \<and> isObject (getProp cur (keyOfToken t)))
            \<or> (\<not> isNumber nx \<and> isArray (getProp cur (keyOfToken t)))"
  shows "descend cur t nx = Inr (putProp cur (keyOfToken t) (fresh nx), fresh nx)"
proof -
  have c': "isObject (putProp cur (keyOfToken t) (fresh nx :: 'a jsval))
            \<or> isArray (putProp cur (keyOfToken t) (fresh nx :: 'a jsval))" using c by simp
  have na: "isObject (getProp cur (keyOfToken t)) \<Longrightarrow> \<not> isArray (getProp cur (keyOfToken t))"
    by (cases "getProp cur (keyOfToken t)") auto
  from w show ?thesis
  proof
    assume "isNumber nx \<and> isObject (getProp cur (keyOfToken t))"
    with t nn na show ?thesis
      by (simp add: descend_def ensureContainer_def Let_def thenE_def readProp_container [OF c]
          writeProp_container [OF c] getProp_putProp [OF c] fresh_def)
  next
    assume "\<not> isNumber nx \<and> isArray (getProp cur (keyOfToken t))"
    with t nn show ?thesis
      by (simp add: descend_def ensureContainer_def Let_def thenE_def readProp_container [OF c]
          writeProp_container [OF c] getProp_putProp [OF c] fresh_def)
  qed
qed


lemma setDeepLoop_ExpectedArray:
  "snd (setDeepLoop cur ts v) = Some ExpectedArray
   \<longleftrightarrow> list_ex indexStepOffArray (iterations cur ts)"
proof (induction cur ts v rule: setDeepLoop.induct)
  case (1 cur v)
  show ?case by simp
next
  case (2 cur t v)
  show ?case by (cases t) (auto simp: writeProp_def)
next
  case (3 cur t nx ts v)
  show ?case
  proof (cases "descend cur t nx")
    case (Inl e)
    from descend_Inl [OF Inl] Inl show ?thesis by (cases t) auto
  next
    case (Inr p)
    obtain c1 child where p: "p = (c1, child)" by (cases p)
    note d = Inr [unfolded p]
    from descend_Inr [OF d] have "isNumber t \<longrightarrow> isArray cur" by simp
    then have h: "\<not> indexStepOffArray (cur, t # nx # ts)" by (cases t) auto
    from 3 [OF d refl] d h show ?thesis by (auto split: prod.splits)
  qed
qed

lemma parseKey_Nil_iff: "parseKey k = [] \<longleftrightarrow> list_all isStop k"
proof (induction k rule: parseKey.induct)
  case 1
  show ?case by simp
next
  case (2 c cs)
  show ?case
  proof (cases "isStop c")
    case False
    then show ?thesis by (simp add: parseKey.simps(2))
  next
    case True
    note st = this
    show ?thesis
    proof (cases "c = of_char CHR ''['' \<and> takeWhile isDigit cs \<noteq> []
                \<and> (case dropWhile isDigit cs of [] \<Rightarrow> False | d # r \<Rightarrow> d = of_char CHR '']'')")
      case True
      then obtain d where d: "d \<in> set cs" "isDigit d"
        by (metis hd_in_set set_takeWhileD)
      then have "\<not> isStop d" by (auto simp: isStop_def isDigit_def)
      with d have "\<not> list_all isStop cs" by (auto simp: list_all_iff)
      with True st show ?thesis by (simp add: parseKey.simps(2))
    next
      case False
      with st 2(3) show ?thesis by (auto simp: parseKey.simps(2))
    qed
  qed
qed

lemma all_dropWhile: "(\<forall>x\<in>set (dropWhile P s). P x) \<longleftrightarrow> (\<forall>x\<in>set s. P x)"
  by (induction s) auto

lemma trim_Nil_iff: "trim s = [] \<longleftrightarrow> list_all isSpace s"
  by (simp add: trim_def list_all_iff all_dropWhile)

text \<open>Unfolding the definitions on a concrete call.\<close>

lemmas eval_simps = jstr_def setDeep_def parseKey.simps(2) isStop_def isDigit_def digitsToNat_def descend_def
  ensureContainer_def thenE_def readProp_def writeProp_def keyOfString_def isArrayIndex_def fresh_def
  objGet_def arrGet_def arrSet_def Let_def

subsection \<open>Replacement of a child of the wrong kind\<close>




subsection \<open>The exception of setDeep and its handling\<close>

text \<open>
  Claim C6, as the code has it. \<^verbatim>\<open>setDeep\<close> throws its own error ("Expected array")
  exactly when the loop reaches an iteration at an index step that is not the last
  step while the current container is not an array. In the projection, when the
  cell is not blank and \<^verbatim>\<open>setDeep\<close> throws, the warning with row number \<open>i + 2\<close>, the
  column and the key is appended and the loop goes on with the remaining columns.
\<close>

theorem expected_array_iff_and_caught:
  "(snd (setDeep root k v) = Some ExpectedArray
      \<longleftrightarrow> list_ex indexStepOffArray (iterations root (parseKey k)))
   \<and> (\<not> isBlank numStr (r col)
        \<and> snd (setDeep (outputs st col) k (JStr (cellToString numStr (r col)))) = Some e
      \<longrightarrow> projectCols numStr i r k (col # cols) st
          = projectCols numStr i r k cols
              (st\<lparr>outputs := (outputs st)
                      (col := fst (setDeep (outputs st col) k (JStr (cellToString numStr (r col))))),
                  warnings := warnings st @ [\<lparr>wRow = i + 2, wCol = col, wKey = k, wErr = e\<rparr>]\<rparr>))"
  by (auto simp: setDeep_def setDeepLoop_ExpectedArray projectCell_def split: prod.splits)

theorem expected_array_iff_and_caught_witness:
  "snd (setDeep (JObj [] :: int jsval) (jstr ''[0].a'') (JStr (jstr ''Hi''))) = Some ExpectedArray
   \<and> list_ex indexStepOffArray (iterations (JObj [] :: int jsval) (parseKey (jstr ''[0].a'')))
   \<and> \<not> isBlank (\<lambda>n :: int. jstr ''0'') (CStr (jstr ''Hi''))
   \<and> warnings (projectCols (\<lambda>n :: int. jstr ''0'') 0 (\<lambda>c. CStr (jstr ''Hi'')) (jstr ''[0].a'') [jstr ''loc:EN'', jstr ''loc:FR'']
        \<lparr>outputs = (\<lambda>col. JObj []), warnings = []\<rparr>)
      = [\<lparr>wRow = 2, wCol = (jstr ''loc:EN''), wKey = (jstr ''[0].a''), wErr = ExpectedArray\<rparr>,
         \<lparr>wRow = 2, wCol = (jstr ''loc:FR''), wKey = (jstr ''[0].a''), wErr = ExpectedArray\<rparr>]"
  using expected_array_iff_and_caught [of "JObj [] :: int jsval" "jstr ''[0].a''" "JStr (jstr ''Hi'')"
      "\<lambda>n :: int. (jstr ''0'')" "\<lambda>c. CStr (jstr ''Hi'')" "jstr ''loc:EN''" "\<lparr>outputs = (\<lambda>col. JObj []), warnings = []\<rparr>"
      ExpectedArray 0 "[jstr ''loc:FR'']"]
  by (simp add: eval_simps projectCell_def trim_def isSpace_def)

text \<open>
  An index step that is the last step does not throw on a container that is no
  array: the path \<^verbatim>\<open>[0]\<close> on the empty root object sets its property \<^verbatim>\<open>0\<close>.
\<close>

theorem final_index_step_no_error:
  "parseKey (jstr ''[0]'') = [IdxT 0] \<and> \<not> isArray (JObj [] :: int jsval)
   \<and> setDeep (JObj [] :: int jsval) (jstr ''[0]'') (JStr (jstr ''v'')) = (JObj [(Idx 0, JStr (jstr ''v''))], None)"
  by (simp add: eval_simps)

subsection \<open>Paths without steps\<close>

text \<open>
  Claim C7, as the code has it. A key yields zero steps exactly when it consists of
  the characters \<^verbatim>\<open>.\<close> and \<^verbatim>\<open>[\<close> only; \<^verbatim>\<open>parseKey\<close> then returns the empty list,
  and \<^verbatim>\<open>setDeep\<close> returns without an exception and leaves the root as it was.
\<close>

theorem setDeep_zero_steps:
  "(parseKey k = [] \<longleftrightarrow> list_all isStop k)
   \<and> (list_all isStop k \<longrightarrow> setDeep root k v = (root, None))"
  using parseKey_Nil_iff [of k] by (auto simp: setDeep_def)

theorem setDeep_zero_steps_witness:
  "list_all isStop (jstr ''.['') \<and> parseKey (jstr ''.['') = []
   \<and> setDeep (JObj [(Name (jstr ''a''), JStr (jstr ''x''))]) (jstr ''.['') (JStr (jstr ''v'')) = (JObj [(Name (jstr ''a''), JStr (jstr ''x''))], None :: error option)"
  using setDeep_zero_steps [of "jstr ''.[''" "JObj [(Name (jstr ''a''), JStr (jstr ''x''))]" "JStr (jstr ''v'')"]
  by (simp add: jstr_def isStop_def)

text \<open>The key \<^verbatim>\<open>.\<close> yields no step, and no error arises.\<close>

theorem empty_path_counterexample:
  "parseKey (jstr ''.'') = [] \<and> setDeep (JObj []) (jstr ''.'') (JStr (jstr ''v'')) = (JObj [], None)"
  by (simp add: jstr_def setDeep_def parseKey.simps(2) isStop_def)

subsection \<open>Idempotence of setDeep\<close>



subsection \<open>Blank cells\<close>

text \<open>
  Claim C9. A cell is blank exactly when it is \<^verbatim>\<open>undefined\<close>, \<^verbatim>\<open>null\<close>, or its
  string consists only of code units that \<^verbatim>\<open>trim\<close> strips (the white space and
  line terminators of the language, the no-break space and the other Unicode
  spaces among them); for a blank cell the body of the projection loop leaves the
  state, and so every output tree, unchanged.
\<close>

theorem blank_cell_skipped:
  "(isBlank numStr c \<longleftrightarrow> c = CUndefined \<or> c = CNull \<or> list_all isSpace (cellToString numStr c))
   \<and> (isBlank numStr (r col) \<longrightarrow> projectCell numStr i r k col st = st)"
  by (cases c) (auto simp: projectCell_def trim_Nil_iff)

text \<open>
  A cell that holds a no-break space, an em space, a space and a byte order mark
  is skipped.
\<close>

theorem blank_cell_skipped_witness:
  "isBlank (\<lambda>n :: int. jstr ''0'') (CStr [0x00A0, 0x2003, 0x0020, 0xFEFF])
   \<and> projectCell (\<lambda>n :: int. jstr ''0'') 0 (\<lambda>c. CStr [0x00A0, 0x2003, 0x0020, 0xFEFF])
        (jstr ''a'') (jstr ''loc:EN'')
        \<lparr>outputs = (\<lambda>col. JObj [(Name (jstr ''a''), JStr (jstr ''x''))]), warnings = []\<rparr>
      = \<lparr>outputs = (\<lambda>col. JObj [(Name (jstr ''a''), JStr (jstr ''x''))]), warnings = []\<rparr>"
  using blank_cell_skipped [of "\<lambda>n :: int. jstr ''0''" "CStr [0x00A0, 0x2003, 0x0020, 0xFEFF]"
      "\<lambda>c. CStr [0x00A0, 0x2003, 0x0020, 0xFEFF]" "jstr ''loc:EN''" 0 "jstr ''a''"
      "\<lparr>outputs = (\<lambda>col. JObj [(Name (jstr ''a''), JStr (jstr ''x''))]), warnings = []\<rparr>"]
  by (simp add: isSpace_def)

section \<open>Properties of the reference merge\<close>

subsection \<open>The report is appended to\<close>

lemma appendStats_empty [simp]: "appendStats emptyStats a = a" "appendStats a emptyStats = a"
  by (simp_all add: appendStats_def emptyStats_def)

lemma appendStats_assoc: "appendStats (appendStats a b) c = appendStats a (appendStats b c)"
  by (simp add: appendStats_def)

lemma pushMissing_as_append: "pushMissing p a = appendStats a \<lparr>missing = [p], extra = []\<rparr>"
  by (simp add: appendStats_def pushMissing_def)

lemma pushExtra_as_append: "pushExtra p a = appendStats a \<lparr>missing = [], extra = [p]\<rparr>"
  by (simp add: appendStats_def pushExtra_def)

text \<open>A call appends to the report it is given; its tree does not depend on that report.\<close>

lemma arrayLoop_Nil_decomp:
  "\<exists>X Y. \<forall>out st. arrayLoop m [] ts i p out st = (out @ X, appendStats st Y)"
proof (induction ts arbitrary: i)
  case Nil
  have "\<forall>out st. arrayLoop m [] [] i p out st = (out @ [], appendStats st emptyStats)" by simp
  then show ?case by blast
next
  case (Cons t ts)
  from Cons [of "Suc i"] obtain X Y where
    ih: "\<And>out st. arrayLoop m [] ts (Suc i) p out st = (out @ X, appendStats st Y)" by blast
  show ?case
  proof (cases "isUndefined t")
    case False
    then have "\<forall>out st. arrayLoop m [] (t # ts) i p out st
        = (out @ (t # X), appendStats st (appendStats \<lparr>missing = [], extra = [arrPath p i]\<rparr> Y))"
      by (simp add: ih pushExtra_as_append appendStats_assoc)
    then show ?thesis by blast
  next
    case True
    then have "\<forall>out st. arrayLoop m [] (t # ts) i p out st
        = (out @ (missingLeaf m JUndefined # X),
           appendStats st (appendStats \<lparr>missing = [arrPath p i], extra = []\<rparr> Y))"
      by (simp add: ih pushMissing_as_append appendStats_assoc)
    then show ?thesis by blast
  qed
qed

lemma arrayLoop_decomp:
  assumes "\<forall>r \<in> set rs. \<forall>t p. \<exists>T S. \<forall>st. reorderLike m r t p st = (T, appendStats st S)"
  shows "\<exists>X Y. \<forall>out st. arrayLoop m rs ts i p out st = (out @ X, appendStats st Y)"
  using assms
proof (induction rs arbitrary: ts i)
  case Nil
  show ?case by (rule arrayLoop_Nil_decomp)
next
  case (Cons r rs)
  from Cons.prems have drs: "\<forall>r \<in> set rs. \<forall>t p. \<exists>T S. \<forall>st. reorderLike m r t p st = (T, appendStats st S)"
    by simp
  from Cons.IH [OF drs, of "tl ts" "Suc i"] obtain X Y where
    ih: "\<And>out st. arrayLoop m rs (tl ts) (Suc i) p out st = (out @ X, appendStats st Y)" by blast
  from Cons.prems obtain T S where
    rl: "\<And>st. reorderLike m r (headOr ts) (arrPath p i) st = (T, appendStats st S)"
    by (metis list.set_intros(1))
  from Cons.prems obtain T' S' where
    rl': "\<And>st. reorderLike m r JUndefined (arrPath p i) st = (T', appendStats st S')"
    by (metis list.set_intros(1))
  show ?case
  proof (cases "isUndefined r \<and> \<not> isUndefined (headOr ts)")
    case True
    then have "\<forall>out st. arrayLoop m (r # rs) ts i p out st
        = (out @ (headOr ts # X), appendStats st (appendStats \<lparr>missing = [], extra = [arrPath p i]\<rparr> Y))"
      by (simp add: ih pushExtra_as_append appendStats_assoc)
    then show ?thesis by blast
  next
    case False
    note c1 = this
    show ?thesis
    proof (cases "isUndefined (headOr ts)")
      case True
      note c2 = this
      show ?thesis
      proof (cases "isContainer r")
        case True
        with c1 c2 have "\<forall>out st. arrayLoop m (r # rs) ts i p out st
            = (out @ (T' # X),
               appendStats st (appendStats (appendStats S' \<lparr>missing = [arrPath p i], extra = []\<rparr>) Y))"
          by (simp add: ih rl' pushMissing_as_append appendStats_assoc)
        then show ?thesis by blast
      next
        case False
        with c1 c2 have "\<forall>out st. arrayLoop m (r # rs) ts i p out st
            = (out @ (missingLeaf m r # X),
               appendStats st (appendStats \<lparr>missing = [arrPath p i], extra = []\<rparr> Y))"
          by (simp add: ih pushMissing_as_append appendStats_assoc)
        then show ?thesis by blast
      qed
    next
      case False
      note c2 = this
      show ?thesis
      proof (cases "isContainer r")
        case True
        with c1 c2 have "\<forall>out st. arrayLoop m (r # rs) ts i p out st
            = (out @ (T # X), appendStats st (appendStats S Y))"
          by (simp add: ih rl appendStats_assoc)
        then show ?thesis by blast
      next
        case False
        with c1 c2 have "\<forall>out st. arrayLoop m (r # rs) ts i p out st
            = (out @ (headOr ts # X), appendStats st Y)"
          by (simp add: ih)
        then show ?thesis by blast
      qed
    qed
  qed
qed

lemma tgtKeysLoop_decomp:
  "tgtKeysLoop refObj es p out st
   = (setAll out (filter (\<lambda>e. \<not> keyIn (fst e) refObj) es),
      appendStats st \<lparr>missing = [],
        extra = map (\<lambda>e. objPath p (fst e)) (filter (\<lambda>e. \<not> keyIn (fst e) refObj) es)\<rparr>)"
proof (induction es arbitrary: out st)
  case Nil
  show ?case by (simp add: appendStats_def)
next
  case (Cons e es)
  obtain k v where e: "e = (k, v)" by (cases e)
  show ?case unfolding e by (simp add: Cons appendStats_def pushExtra_def)
qed

lemma refKeysLoop_decomp:
  assumes "\<forall>e \<in> set es. \<forall>t p. \<exists>T S. \<forall>st. reorderLike m (snd e) t p st = (T, appendStats st S)"
  shows "\<exists>A Y. \<forall>out st. refKeysLoop m es tobj p out st = (setAll out A, appendStats st Y)"
  using assms
proof (induction es)
  case Nil
  have "\<forall>out st. refKeysLoop m [] tobj p out st = (setAll out [], appendStats st emptyStats)" by simp
  then show ?case by blast
next
  case (Cons e es)
  obtain k r where e: "e = (k, r)" by (cases e)
  from Cons.prems have des: "\<forall>e \<in> set es. \<forall>t p. \<exists>T S. \<forall>st. reorderLike m (snd e) t p st = (T, appendStats st S)"
    by simp
  from Cons.IH [OF des] obtain A Y where
    ih: "\<And>out st. refKeysLoop m es tobj p out st = (setAll out A, appendStats st Y)" by blast
  from Cons.prems e obtain T S where
    rl: "\<And>st. reorderLike m r (objRead tobj k) (objPath p k) st = (T, appendStats st S)"
    by (metis list.set_intros(1) snd_conv)
  from Cons.prems e obtain T' S' where
    rl': "\<And>st. reorderLike m r JUndefined (objPath p k) st = (T', appendStats st S')"
    by (metis list.set_intros(1) snd_conv)
  show ?case
  proof (cases "keyIn k tobj")
    case False
    note c1 = this
    show ?thesis
    proof (cases "isContainer r")
      case True
      with c1 have "\<forall>out st. refKeysLoop m (e # es) tobj p out st
          = (setAll out ((k, T') # A),
             appendStats st (appendStats (appendStats S' \<lparr>missing = [objPath p k], extra = []\<rparr>) Y))"
        unfolding e by (simp add: ih rl' pushMissing_as_append appendStats_assoc)
      then show ?thesis by blast
    next
      case False
      with c1 have "\<forall>out st. refKeysLoop m (e # es) tobj p out st
          = (setAll out ((k, missingLeaf m r) # A),
             appendStats st (appendStats \<lparr>missing = [objPath p k], extra = []\<rparr> Y))"
        unfolding e by (simp add: ih pushMissing_as_append appendStats_assoc)
      then show ?thesis by blast
    qed
  next
    case True
    note c1 = this
    show ?thesis
    proof (cases "isContainer r")
      case True
      with c1 have "\<forall>out st. refKeysLoop m (e # es) tobj p out st
          = (setAll out ((k, T) # A), appendStats st (appendStats S Y))"
        unfolding e by (simp add: ih rl appendStats_assoc)
      then show ?thesis by blast
    next
      case False
      with c1 have "\<forall>out st. refKeysLoop m (e # es) tobj p out st
          = (setAll out ((k, objRead tobj k) # A), appendStats st Y)"
        unfolding e by (simp add: ih)
      then show ?thesis by blast
    qed
  qed
qed

lemma reorderLike_decomp:
  "\<exists>T S. \<forall>st. reorderLike m r t p st = (T, appendStats st S)"
proof (induction r arbitrary: t p)
  case (JArr xs ps)
  then have "\<forall>r \<in> set xs. \<forall>t p. \<exists>T S. \<forall>st. reorderLike m r t p st = (T, appendStats st S)"
    by blast
  from arrayLoop_decomp [OF this, of "elemsOf t" 0 p] obtain X Y where
    "\<And>out st. arrayLoop m xs (elemsOf t) 0 p out st = (out @ X, appendStats st Y)" by blast
  then have "\<forall>st. reorderLike m (JArr xs ps) t p st = (JArr X [], appendStats st Y)" by simp
  then show ?case by blast
next
  case (JObj es)
  have "\<forall>e \<in> set es. \<forall>t p. \<exists>T S. \<forall>st. reorderLike m (snd e) t p st = (T, appendStats st S)"
  proof
    fix e assume "e \<in> set es"
    moreover obtain k v where "e = (k, v)" by (cases e)
    ultimately show "\<forall>t p. \<exists>T S. \<forall>st. reorderLike m (snd e) t p st = (T, appendStats st S)"
      using JObj by (metis snd_conv snds.intros)
  qed
  from refKeysLoop_decomp [OF this, of "propsOf t" p] obtain A Y where
    "\<And>out st. refKeysLoop m es (propsOf t) p out st = (setAll out A, appendStats st Y)" by blast
  then have "\<forall>st. reorderLike m (JObj es) t p st
      = (JObj (setAll (setAll [] A) (filter (\<lambda>e. \<not> keyIn (fst e) es) (propsOf t))),
         appendStats st (appendStats Y \<lparr>missing = [],
           extra = map (\<lambda>e. objPath p (fst e)) (filter (\<lambda>e. \<not> keyIn (fst e) es) (propsOf t))\<rparr>))"
    by (simp add: tgtKeysLoop_decomp appendStats_assoc)
  then show ?case by blast
next
  case JUndefined
  have "\<forall>st. reorderLike m JUndefined t p st = (if isUndefined t then missingLeaf m JUndefined else t,
      appendStats st (if isUndefined t then \<lparr>missing = [if p = [] then jstr ''(root)'' else p], extra = []\<rparr> else emptyStats))"
    by (simp add: pushMissing_as_append)
  then show ?case by blast
next
  case JNull
  have "\<forall>st. reorderLike m JNull t p st = (if isUndefined t then missingLeaf m JNull else t,
      appendStats st (if isUndefined t then \<lparr>missing = [if p = [] then jstr ''(root)'' else p], extra = []\<rparr> else emptyStats))"
    by (simp add: pushMissing_as_append)
  then show ?case by blast
next
  case (JBool b)
  have "\<forall>st. reorderLike m (JBool b) t p st = (if isUndefined t then missingLeaf m (JBool b) else t,
      appendStats st (if isUndefined t then \<lparr>missing = [if p = [] then jstr ''(root)'' else p], extra = []\<rparr> else emptyStats))"
    by (simp add: pushMissing_as_append)
  then show ?case by blast
next
  case (JNum n)
  have "\<forall>st. reorderLike m (JNum n) t p st = (if isUndefined t then missingLeaf m (JNum n) else t,
      appendStats st (if isUndefined t then \<lparr>missing = [if p = [] then jstr ''(root)'' else p], extra = []\<rparr> else emptyStats))"
    by (simp add: pushMissing_as_append)
  then show ?case by blast
next
  case (JStr s)
  have "\<forall>st. reorderLike m (JStr s) t p st = (if isUndefined t then missingLeaf m (JStr s) else t,
      appendStats st (if isUndefined t then \<lparr>missing = [if p = [] then jstr ''(root)'' else p], extra = []\<rparr> else emptyStats))"
    by (simp add: pushMissing_as_append)
  then show ?case by blast
next
  case (JFunction f)
  have "\<forall>st. reorderLike m (JFunction f) t p st = (if isUndefined t then missingLeaf m (JFunction f) else t,
      appendStats st (if isUndefined t then \<lparr>missing = [if p = [] then jstr ''(root)'' else p], extra = []\<rparr> else emptyStats))"
    by (simp add: pushMissing_as_append)
  then show ?case by blast
qed

lemma reorderLike_st:
  "reorderLike m r t p st
   = (fst (reorderLike m r t p emptyStats), appendStats st (snd (reorderLike m r t p emptyStats)))"
proof -
  from reorderLike_decomp [of m r t p] obtain T S where
    d: "\<And>st. reorderLike m r t p st = (T, appendStats st S)" by blast
  show ?thesis by (simp add: d)
qed

lemma reorderLike_fst: "fst (reorderLike m r t p st) = fst (reorderLike m r t p emptyStats)"
  by (subst reorderLike_st) simp

lemma arrayLoop_st:
  "arrayLoop m rs ts i p out st
   = (out @ fst (arrayLoop m rs ts i p [] emptyStats),
      appendStats st (snd (arrayLoop m rs ts i p [] emptyStats)))"
proof -
  have "\<forall>r \<in> set rs. \<forall>t p. \<exists>T S. \<forall>st. reorderLike m r t p st = (T, appendStats st S)"
    using reorderLike_decomp by blast
  from arrayLoop_decomp [OF this, of ts i p] obtain X Y where
    d: "\<And>out st. arrayLoop m rs ts i p out st = (out @ X, appendStats st Y)" by blast
  show ?thesis by (simp add: d)
qed

lemma refKeysLoop_st:
  "refKeysLoop m es tobj p out st
   = (fst (refKeysLoop m es tobj p out emptyStats),
      appendStats st (snd (refKeysLoop m es tobj p [] emptyStats)))"
proof -
  have "\<forall>e \<in> set es. \<forall>t p. \<exists>T S. \<forall>st. reorderLike m (snd e) t p st = (T, appendStats st S)"
    using reorderLike_decomp by blast
  from refKeysLoop_decomp [OF this, of tobj p] obtain A Y where
    d: "\<And>out st. refKeysLoop m es tobj p out st = (setAll out A, appendStats st Y)" by blast
  show ?thesis by (simp add: d)
qed

lemma refKeysLoop_fst:
  "fst (refKeysLoop m es tobj p out st) = setAll out (refVals m es tobj p)"
proof (induction es arbitrary: out st)
  case Nil
  show ?case by (simp add: refVals_def)
next
  case (Cons e es)
  obtain k r where e: "e = (k, r)" by (cases e)
  have ih: "\<And>out st. fst (refKeysLoop m es tobj p out st) = setAll out (refVals m es tobj p)"
    by (rule Cons)
  have rv: "refVals m (e # es) tobj p
      = (k, if keyIn k tobj then presentChild m r (objRead tobj k) (objPath p k)
            else missingChild m r (objPath p k)) # refVals m es tobj p"
    by (simp add: refVals_def e)
  show ?case
    unfolding rv unfolding e
    by (simp add: ih presentChild_def missingChild_def reorderLike_fst [of m r _ _ st]
        case_prod_beta)
qed

lemma map_of_setAll_distinct:
  "distinct (map fst kvs) \<Longrightarrow> map_of (setAll out kvs) = map_of out ++ map_of kvs"
proof (induction kvs arbitrary: out)
  case Nil
  show ?case by simp
next
  case (Cons e kvs)
  obtain k v where e: "e = (k, v)" by (cases e)
  from Cons.prems e have d: "distinct (map fst kvs)" and nk: "k \<notin> fst ` set kvs" by auto
  from nk have "map_of kvs k = None" by (simp add: map_of_eq_None_iff)
  then show ?case unfolding e
    by (auto simp: Cons.IH [OF d] map_of_objSet fun_eq_iff map_add_def split: option.splits)
qed

lemma hasOwn_iff: "hasOwn k es \<longleftrightarrow> k \<in> fst ` set es"
  by (simp add: hasOwn_def map_of_eq_None_iff)

lemma keyIn_iff: "keyIn k es \<longleftrightarrow> k \<in> fst ` set es \<or> inherited k"
  by (simp add: keyIn_def hasOwn_iff)

lemma keyIn_own: "map_of es k = Some v \<Longrightarrow> keyIn k es"
  by (simp add: keyIn_def hasOwn_def)

lemma keyIn_plain: "\<not> inherited k \<Longrightarrow> keyIn k es = hasOwn k es"
  by (simp add: keyIn_def)

lemma objRead_own: "map_of es k = Some v \<Longrightarrow> objRead es k = v"
  by (simp add: objRead_def)

lemma objRead_objGet: "hasOwn k es \<Longrightarrow> objRead es k = objGet es k"
  by (auto simp: objRead_def objGet_def hasOwn_def)

lemma objRead_inherited: "\<not> hasOwn k es \<Longrightarrow> objRead es k = inheritedValue k"
  by (simp add: objRead_def hasOwn_def)

text \<open>
  A value read through the prototype chain is a function or the empty object: it
  has no element and no own property.
\<close>

lemma inheritedValue_empty [simp]:
  "elemsOf (inheritedValue k :: 'a jsval) = []" "propsOf (inheritedValue k :: 'a jsval) = []"
  by (simp_all add: inheritedValue_def split: key.splits)

lemma inheritedValue_defined: "inherited k \<Longrightarrow> \<not> isUndefined (inheritedValue k :: 'a jsval)"
  by (cases k) (simp_all add: inheritedValue_def)

lemma keyIn_defined_or_own:
  "keyIn k es \<Longrightarrow> hasOwn k es \<or> \<not> isUndefined (objRead es k)"
  by (auto simp: keyIn_def objRead_inherited inheritedValue_defined)

lemma map_fst_refVals [simp]: "map fst (refVals m es tobj p) = map fst es"
  by (simp add: refVals_def comp_def)

lemma keyBefore_irrefl: "\<not> keyBefore k k"
  by (cases k) auto

lemma keysOrdered_distinct: "keysOrdered es \<Longrightarrow> distinct (map fst es)"
  unfolding keysOrdered_def
  by (induction es) (auto simp: keyBefore_irrefl)

lemma map_of_refVals:
  "map_of es k = Some r \<Longrightarrow> distinct (map fst es) \<Longrightarrow>
   map_of (refVals m es tobj p) k
   = Some (if keyIn k tobj then presentChild m r (objRead tobj k) (objPath p k)
           else missingChild m r (objPath p k))"
  by (induction es) (auto simp: refVals_def split: if_splits)

lemma map_of_setAll_other:
  "k \<notin> fst ` set kvs \<Longrightarrow> map_of (setAll out kvs) k = map_of out k"
proof (induction kvs arbitrary: out)
  case Nil
  show ?case by simp
next
  case (Cons e kvs)
  obtain k' v where e: "e = (k', v)" by (cases e)
  with Cons.prems have "k \<noteq> k'" "k \<notin> fst ` set kvs" by auto
  then show ?case unfolding e by (simp add: Cons.IH map_of_objSet)
qed

lemma reorderLike_obj_fst:
  "fst (reorderLike m (JObj es) t p st)
   = JObj (setAll (setAll [] (refVals m es (propsOf t) p))
             (filter (\<lambda>e. \<not> keyIn (fst e) es) (propsOf t)))"
  by (simp add: tgtKeysLoop_decomp case_prod_beta refKeysLoop_fst)

text \<open>The value of the merged object at a key of the reference.\<close>

lemma reorderLike_obj_at:
  assumes "map_of es k = Some r" and "distinct (map fst es)"
  shows "getProp (fst (reorderLike m (JObj es) t p st)) k
     = (if keyIn k (propsOf t) then presentChild m r (objRead (propsOf t) k) (objPath p k)
        else missingChild m r (objPath p k))"
proof -
  let ?B = "filter (\<lambda>e. \<not> keyIn (fst e) es) (propsOf t)"
  let ?A = "refVals m es (propsOf t) p"
  from assms(1) have "keyIn k es" by (simp add: keyIn_def hasOwn_def)
  then have kB: "k \<notin> fst ` set ?B" by auto
  have "map_of (setAll (setAll [] ?A) ?B) k = map_of (setAll [] ?A) k"
    using kB by (rule map_of_setAll_other)
  also have "\<dots> = map_of ?A k"
    using assms(2) by (simp add: map_of_setAll_distinct)
  finally have "objGet (setAll (setAll [] ?A) ?B) k
      = (if keyIn k (propsOf t) then presentChild m r (objRead (propsOf t) k) (objPath p k)
         else missingChild m r (objPath p k))"
    unfolding objGet_def [of "setAll (setAll [] ?A) ?B"] by (simp add: map_of_refVals [OF assms])
  then show ?thesis unfolding reorderLike_obj_fst by simp
qed

text \<open>The elements of the merged array.\<close>

lemma arrayLoop_length:
  "length (fst (arrayLoop m rs ts i p out st)) = length out + max (length rs) (length ts)"
proof (induction rs arbitrary: ts i out st)
  case Nil
  show ?case by (induction ts arbitrary: i out st) auto
next
  case (Cons r rs)
  show ?case by (cases ts) (auto simp: Cons case_prod_beta)
qed

lemma arrGet_simps [simp]:
  "arrGet [] i = JUndefined" "arrGet (x # xs) 0 = x" "arrGet (x # xs) (Suc i) = arrGet xs i"
  by (simp_all add: arrGet_def)

lemma arrGet_tl: "arrGet (tl ts) i = arrGet ts (Suc i)"
  by (cases ts) simp_all

lemma headOr_arrGet: "headOr ts = arrGet ts 0"
  by (cases ts) simp_all

lemma arrayLoop_first:
  "fst (arrayLoop m rs ts i p (out @ [v]) st) ! length out = v"
  by (subst arrayLoop_st) (simp add: nth_append)

lemma arrayLoop_Nil_nth:
  "j < length ts \<Longrightarrow>
   fst (arrayLoop m [] ts i p out st) ! (length out + j)
   = arrayElem m JUndefined (arrGet ts j) (arrPath p (i + j))"
proof (induction ts arbitrary: i out st j)
  case Nil
  then show ?case by simp
next
  case (Cons t ts)
  show ?case
  proof (cases j)
    case 0
    then show ?thesis
      by (simp add: arrayLoop_first arrayElem_def missingChild_def isContainer_def)
  next
    case (Suc j')
    with Cons.prems have "j' < length ts" by simp
    from Cons.IH [OF this, of "Suc i" "out @ [x]" for x] Suc show ?thesis by simp
  qed
qed

lemma arrayLoop_nth:
  "j < max (length rs) (length ts) \<Longrightarrow>
   fst (arrayLoop m rs ts i p out st) ! (length out + j)
   = arrayElem m (arrGet rs j) (arrGet ts j) (arrPath p (i + j))"
proof (induction rs arbitrary: ts i out st j)
  case Nil
  then show ?case by (simp add: arrayLoop_Nil_nth)
next
  case (Cons r rs)
  show ?case
  proof (cases j)
    case 0
    then show ?thesis
      by (simp add: arrayLoop_first arrayElem_def missingChild_def presentChild_def case_prod_beta
          headOr_arrGet reorderLike_fst [of m r _ _ st])
  next
    case (Suc j')
    with Cons.prems have "j' < max (length rs) (length (tl ts))" by (cases ts) auto
    from Cons.IH [OF this, of "Suc i" "out @ [x]" for x] Suc show ?thesis
      by (simp add: case_prod_beta arrGet_tl)
  qed
qed

lemma reorderLike_arr_at:
  "i < max (length rs) (length (elemsOf t)) \<Longrightarrow>
   \<exists>out. fst (reorderLike m (JArr rs rps) t p st) = JArr out []
     \<and> length out = max (length rs) (length (elemsOf t))
     \<and> arrGet out i = arrayElem m (arrGet rs i) (arrGet (elemsOf t) i) (arrPath p i)"
  using arrayLoop_nth [of i rs "elemsOf t" m 0 p "[]" st] arrayLoop_length [of m rs "elemsOf t" 0 p "[]" st]
  by (simp add: case_prod_beta arrGet_def)

subsection \<open>Positions\<close>

lemma nodeAt_undefined [simp]: "nodeAt JUndefined pos = JUndefined"
  by (cases pos) simp_all

lemma nodeAt_not_container: "\<not> isContainer r \<Longrightarrow> nodeAt r (s # pos) = JUndefined"
  by (cases r) (simp_all add: isContainer_def)

lemma isLeaf_not_container: "isLeaf v \<Longrightarrow> \<not> isContainer v"
  by (cases v) (simp_all add: isContainer_def)

lemma yamlValues_iff: "yamlValues xs \<longleftrightarrow> (\<forall>x \<in> set xs. yamlValue x)"
  by (induction xs) auto

lemma yamlProps_iff: "yamlProps es \<longleftrightarrow> (\<forall>e \<in> set es. yamlValue (snd e))"
  by (induction es) auto

lemma yamlValue_defined: "yamlValue v \<Longrightarrow> \<not> isUndefined v"
  by (cases v) simp_all

lemma yamlValue_arrGet:
  "yamlValues xs \<Longrightarrow> \<not> isUndefined (arrGet xs i) \<Longrightarrow> yamlValue (arrGet xs i)"
  by (auto simp: arrGet_def yamlValues_iff split: if_splits)

lemma objGet_defined:
  "\<not> isUndefined (objGet es k) \<Longrightarrow> \<exists>v. map_of es k = Some v \<and> objGet es k = v"
  by (auto simp: objGet_def split: option.splits)

lemma yamlValue_objGet:
  "yamlProps es \<Longrightarrow> \<not> isUndefined (objGet es k) \<Longrightarrow> yamlValue (objGet es k)"
  by (auto simp: objGet_def yamlProps_iff split: option.splits dest!: map_of_SomeD)

subsection \<open>The missing-value policy\<close>

lemma missingLeaf_policyLeaf: "missingLeaf m v = policyLeaf m v"
  by (auto simp: missingLeaf_def policyLeaf_def jstr_def)

lemma policyClone_leaf: "\<not> isContainer v \<Longrightarrow> policyClone m v = policyLeaf m v"
  by (cases v) (simp_all add: isContainer_def)

lemma keyBefore_asym: "keyBefore k' k \<Longrightarrow> \<not> goesBefore k k'"
  by (cases k; cases k') auto

lemma objSet_append:
  "keysOrdered (out @ [(k, v)]) \<Longrightarrow> objSet k v out = out @ [(k, v)]"
proof (induction out)
  case Nil
  show ?case by simp
next
  case (Cons e out)
  obtain k' v' where e: "e = (k', v')" by (cases e)
  from Cons.prems e have kb: "keyBefore k' k" and ko: "keysOrdered (out @ [(k, v)])"
    by (auto simp: keysOrdered_def)
  from kb have "k' \<noteq> k" using keyBefore_irrefl by auto
  with kb ko show ?case unfolding e by (simp add: Cons.IH keyBefore_asym)
qed

lemma setAll_ordered:
  "keysOrdered (out @ kvs) \<Longrightarrow> setAll out kvs = out @ kvs"
proof (induction kvs arbitrary: out)
  case Nil
  show ?case by simp
next
  case (Cons e kvs)
  obtain k v where e: "e = (k, v)" by (cases e)
  from Cons.prems e have a: "keysOrdered (out @ [(k, v)])"
    by (auto simp: keysOrdered_def sorted_wrt_append)
  from Cons.prems e have b: "keysOrdered ((out @ [(k, v)]) @ kvs)" by simp
  show ?case unfolding e by (simp add: objSet_append [OF a] Cons.IH [OF b])
qed

lemma map_fst_policyCloneProps [simp]: "map fst (policyCloneProps m es) = map fst es"
  by (induction es) auto

lemma policyClones_map: "policyClones m xs = map (policyClone m) xs"
  by (induction xs) auto

lemma policyCloneProps_map: "policyCloneProps m es = map (\<lambda>e. (fst e, policyClone m (snd e))) es"
  by (induction es) auto

text \<open>A reference merged into nothing is the policy's clone of the reference.\<close>

lemma arrayLoop_missing_all:
  assumes "\<forall>r \<in> set rs. \<forall>p st. fst (reorderLike m r JUndefined p st) = policyClone m r"
    and "\<forall>r \<in> set rs. \<not> isUndefined r"
  shows "fst (arrayLoop m rs [] i p out st) = out @ policyClones m rs"
  using assms
proof (induction rs arbitrary: i out st)
  case Nil
  show ?case by simp
next
  case (Cons r rs)
  from Cons.prems have ih: "\<And>i out st. fst (arrayLoop m rs [] i p out st) = out @ policyClones m rs"
    using Cons.IH by simp
  from Cons.prems have r: "\<And>p st. fst (reorderLike m r JUndefined p st) = policyClone m r"
    and rd: "\<not> isUndefined r" by simp_all
  show ?case
    by (simp add: ih r rd case_prod_beta missingLeaf_policyLeaf policyClone_leaf)
qed

lemma refVals_missing_all:
  assumes "\<forall>e \<in> set es. \<forall>p st. fst (reorderLike m (snd e) JUndefined p st) = policyClone m (snd e)"
    and "\<forall>e \<in> set es. \<not> inherited (fst e)"
  shows "refVals m es [] p = policyCloneProps m es"
  using assms
  by (induction es)
     (auto simp: refVals_def keyIn_def hasOwn_def missingChild_def missingLeaf_policyLeaf policyClone_leaf)

lemma plainKeysList_iff: "plainKeysList xs \<longleftrightarrow> (\<forall>x \<in> set xs. plainKeys x)"
  by (induction xs) auto

lemma plainKeysProps_iff:
  "plainKeysProps es \<longleftrightarrow> (\<forall>e \<in> set es. \<not> inherited (fst e) \<and> plainKeys (snd e))"
  by (induction es) auto

lemma reorderLike_undefined_target:
  "yamlValue r \<Longrightarrow> plainKeys r \<Longrightarrow> fst (reorderLike m r JUndefined p st) = policyClone m r"
proof (induction r arbitrary: p st)
  case (JArr xs ps)
  then have y: "yamlValues xs" and pk: "plainKeysList xs" by simp_all
  have a: "\<forall>r \<in> set xs. \<forall>p st. fst (reorderLike m r JUndefined p st) = policyClone m r"
    using JArr.IH(1) y pk by (simp add: yamlValues_iff plainKeysList_iff)
  have b: "\<forall>r \<in> set xs. \<not> isUndefined r"
    using y by (auto simp: yamlValues_iff dest: yamlValue_defined)
  show ?case by (simp add: case_prod_beta arrayLoop_missing_all [OF a b])
next
  case (JObj es)
  then have y: "yamlProps es" and ko: "keysOrdered es" and pk: "plainKeysProps es" by simp_all
  have a: "\<forall>e \<in> set es. \<forall>p st. fst (reorderLike m (snd e) JUndefined p st) = policyClone m (snd e)"
  proof
    fix e assume e: "e \<in> set es"
    obtain k v where kv: "e = (k, v)" by (cases e)
    from e kv y have "yamlValue v" by (auto simp: yamlProps_iff)
    moreover from e kv pk have "plainKeys v" by (auto simp: plainKeysProps_iff)
    ultimately show "\<forall>p st. fst (reorderLike m (snd e) JUndefined p st) = policyClone m (snd e)"
      using JObj.IH [of e v] e kv by simp
  qed
  have b: "\<forall>e \<in> set es. \<not> inherited (fst e)" using pk by (simp add: plainKeysProps_iff)
  have "keysOrdered ([] @ policyCloneProps m es)" using ko by (simp add: keysOrdered_def)
  from setAll_ordered [OF this] show ?case
    unfolding reorderLike_obj_fst by (simp add: refVals_missing_all [OF a b])
qed (simp_all add: missingLeaf_policyLeaf)

lemma map_of_policyCloneProps:
  "map_of (policyCloneProps m es) k = map_option (policyClone m) (map_of es k)"
  by (induction es) auto

lemma nodeAt_policyClone:
  "\<not> isUndefined (nodeAt r pos) \<Longrightarrow> nodeAt (policyClone m r) pos = policyClone m (nodeAt r pos)"
proof (induction pos arbitrary: r)
  case Nil
  show ?case by simp
next
  case (Cons s pos)
  show ?case
  proof (cases r)
    case (JArr xs ps)
    with Cons.prems obtain i where s: "s = AtIndex i" by (cases s) auto
    from Cons.prems JArr s have d: "\<not> isUndefined (nodeAt (arrGet xs i) pos)" by simp
    then have "\<not> isUndefined (arrGet xs i)" by (cases "arrGet xs i") auto
    then have "i < length xs" by (auto simp: arrGet_def split: if_splits)
    then have "arrGet (policyClones m xs) i = policyClone m (arrGet xs i)"
      by (simp add: arrGet_def policyClones_map)
    with Cons.IH [OF d] JArr s show ?thesis by simp
  next
    case (JObj es)
    with Cons.prems obtain k where s: "s = AtKey k" by (cases s) auto
    from Cons.prems JObj s have d: "\<not> isUndefined (nodeAt (objGet es k) pos)" by simp
    then have "\<not> isUndefined (objGet es k)" by (cases "objGet es k") auto
    from objGet_defined [OF this] have mk: "map_of es k = Some (objGet es k)" by auto
    then have "map_of (policyCloneProps m es) k = Some (policyClone m (objGet es k))"
      by (simp add: map_of_policyCloneProps)
    then have "objGet (policyCloneProps m es) k = policyClone m (objGet es k)"
      by (simp add: objGet_def)
    with Cons.IH [OF d] JObj s show ?thesis by simp
  qed (use Cons.prems in \<open>simp_all\<close>)
qed

lemma leaf_position:
  assumes "\<not> isContainer v" and "\<not> isUndefined (nodeAt v pos)"
  shows "pos = []"
proof (rule ccontr)
  assume "pos \<noteq> []"
  then obtain s' pos' where "pos = s' # pos'" by (cases pos) auto
  with assms(2) nodeAt_not_container [OF assms(1), of s' pos'] show False by simp
qed

lemma missing_position_filled_aux:
  "yamlValue r \<Longrightarrow> isUndefined t \<or> yamlValue t \<Longrightarrow>
   \<not> isUndefined (nodeAt r pos) \<Longrightarrow> isUndefined (nodeAt t pos) \<Longrightarrow>
   list_all plainStep pos \<Longrightarrow> plainKeys (nodeAt r pos) \<Longrightarrow>
   nodeAt (fst (reorderLike m r t p st)) pos = policyClone m (nodeAt r pos)"
proof (induction pos arbitrary: r t p st)
  case Nil
  then have "t = JUndefined" by (cases t) simp_all
  with Nil show ?case by (simp add: reorderLike_undefined_target)
next
  case (Cons s pos)
  from Cons.prems(5) have ps: "plainStep s" and pp: "list_all plainStep pos" by simp_all
  show ?case
  proof (cases r)
    case (JArr rs rps)
    with Cons.prems(3) obtain i where s: "s = AtIndex i" by (cases s) auto
    let ?rv = "arrGet rs i"
    let ?tv = "arrGet (elemsOf t) i"
    from Cons.prems(3) JArr s have rd: "\<not> isUndefined (nodeAt ?rv pos)" by simp
    then have rvd: "\<not> isUndefined ?rv" by (cases "?rv") auto
    from Cons.prems(6) JArr s have pk: "plainKeys (nodeAt ?rv pos)" by simp
    from Cons.prems(1) JArr have "yamlValues rs" by simp
    from yamlValue_arrGet [OF this rvd] have rvy: "yamlValue ?rv" .
    from rvd have "i < length rs" by (auto simp: arrGet_def split: if_splits)
    then have "i < max (length rs) (length (elemsOf t))" by simp
    from reorderLike_arr_at [OF this, of m rps p st] obtain out where
      o: "fst (reorderLike m (JArr rs rps) t p st) = JArr out []"
        "arrGet out i = arrayElem m ?rv ?tv (arrPath p i)" by auto
    have tu: "isUndefined (nodeAt ?tv pos)"
      using Cons.prems(4) s by (cases t) auto
    have ty: "isUndefined ?tv \<or> yamlValue ?tv"
    proof (cases t)
      case (JArr ts tps)
      with Cons.prems(2) have "yamlValues ts" by auto
      with yamlValue_arrGet [of ts i] JArr show ?thesis by auto
    qed simp_all
    show ?thesis
    proof (cases "isContainer ?rv")
      case True
      with rvd have "arrayElem m ?rv ?tv (arrPath p i)
          = fst (reorderLike m ?rv ?tv (arrPath p i) emptyStats)"
        by (cases "?tv") (simp_all add: arrayElem_def missingChild_def presentChild_def)
      with o JArr s Cons.IH [OF rvy ty rd tu pp pk, of "arrPath p i" emptyStats]
      show ?thesis by simp
    next
      case False
      from leaf_position [OF False rd] have pe: "pos = []" .
      with tu have "isUndefined ?tv" by simp
      with rvd False have "arrayElem m ?rv ?tv (arrPath p i) = policyClone m ?rv"
        by (simp add: arrayElem_def missingChild_def missingLeaf_policyLeaf policyClone_leaf)
      with o JArr s pe show ?thesis by simp
    qed
  next
    case (JObj es)
    with Cons.prems(3) obtain k where s: "s = AtKey k" by (cases s) auto
    from ps s have nk: "\<not> inherited k" by simp
    let ?rv = "objGet es k"
    let ?tv = "objGet (propsOf t) k"
    let ?q = "objPath p k"
    from Cons.prems(3) JObj s have rd: "\<not> isUndefined (nodeAt ?rv pos)" by simp
    then have rvd: "\<not> isUndefined ?rv" by (cases "?rv") auto
    from Cons.prems(6) JObj s have pk: "plainKeys (nodeAt ?rv pos)" by simp
    from objGet_defined [OF rvd] have mk: "map_of es k = Some ?rv" by auto
    from Cons.prems(1) JObj have ye: "yamlProps es" and ko: "keysOrdered es" by simp_all
    from yamlValue_objGet [OF ye rvd] have rvy: "yamlValue ?rv" .
    from reorderLike_obj_at [OF mk keysOrdered_distinct [OF ko], of m t p st]
    have o: "getProp (fst (reorderLike m (JObj es) t p st)) k
        = (if keyIn k (propsOf t) then presentChild m ?rv (objRead (propsOf t) k) ?q
           else missingChild m ?rv ?q)" .
    have n: "nodeAt (fst (reorderLike m (JObj es) t p st)) (AtKey k # pos)
        = nodeAt (getProp (fst (reorderLike m (JObj es) t p st)) k) pos"
      unfolding reorderLike_obj_fst by simp
    have tu: "isUndefined (nodeAt ?tv pos)"
      using Cons.prems(4) s by (cases t) (auto simp: objGet_def)
    have tprops: "yamlProps (propsOf t)"
      using Cons.prems(2) by (cases t) auto
    have ty: "isUndefined ?tv \<or> yamlValue ?tv"
      using yamlValue_objGet [OF tprops, of k] by auto
    show ?thesis
    proof (cases "isContainer ?rv")
      case True
      have "(if keyIn k (propsOf t) then presentChild m ?rv (objRead (propsOf t) k) ?q
             else missingChild m ?rv ?q)
          = fst (reorderLike m ?rv ?tv ?q emptyStats)"
      proof (cases "hasOwn k (propsOf t)")
        case True
        with \<open>isContainer ?rv\<close> show ?thesis
          by (simp add: keyIn_def presentChild_def objRead_objGet)
      next
        case False
        then have "?tv = JUndefined" by (simp add: objGet_def hasOwn_def)
        with False nk \<open>isContainer ?rv\<close> show ?thesis
          by (simp add: keyIn_def missingChild_def)
      qed
      with o n JObj s Cons.IH [OF rvy ty rd tu pp pk, of ?q emptyStats]
      show ?thesis by simp
    next
      case False
      from leaf_position [OF False rd] have pe: "pos = []" .
      with tu have u: "isUndefined ?tv" by simp
      have "\<not> hasOwn k (propsOf t)"
      proof
        assume "hasOwn k (propsOf t)"
        then obtain v where v: "map_of (propsOf t) k = Some v" by (auto simp: hasOwn_def)
        with tprops have "yamlValue v" by (auto simp: yamlProps_iff dest!: map_of_SomeD)
        with v u show False by (simp add: objGet_def yamlValue_defined)
      qed
      with nk False o have "getProp (fst (reorderLike m (JObj es) t p st)) k = policyClone m ?rv"
        by (simp add: keyIn_def missingChild_def missingLeaf_policyLeaf policyClone_leaf)
      with n JObj s pe show ?thesis by simp
    qed
  qed (use Cons.prems(3) in \<open>simp_all\<close>)
qed

lemma createFromRefKeys_setAll:
  "createFromRefKeys es mode out = setAll out (map (\<lambda>e. (fst e, createFromRef (snd e) mode)) es)"
  by (induction es arbitrary: out) auto

lemma createFromRef_policyClone:
  "yamlValue r \<Longrightarrow> mode \<noteq> jstr ''null'' \<Longrightarrow> createFromRef r mode = policyClone mode r"
proof (induction r)
  case (JArr xs ps)
  then have "\<forall>x \<in> set xs. createFromRef x mode = policyClone mode x"
    by (simp add: yamlValues_iff)
  then show ?case by (simp add: policyClones_map)
next
  case (JObj es)
  then have y: "yamlProps es" and ko: "keysOrdered es" by simp_all
  have "\<forall>e \<in> set es. createFromRef (snd e) mode = policyClone mode (snd e)"
  proof
    fix e assume e: "e \<in> set es"
    obtain k v where kv: "e = (k, v)" by (cases e)
    from e kv y have "yamlValue v" by (auto simp: yamlProps_iff)
    with JObj.IH [of e v] e kv JObj.prems(2)
    show "createFromRef (snd e) mode = policyClone mode (snd e)" by simp
  qed
  then have m: "map (\<lambda>e. (fst e, createFromRef (snd e) mode)) es = policyCloneProps mode es"
    by (simp add: policyCloneProps_map)
  have "keysOrdered ([] @ policyCloneProps mode es)" using ko by (simp add: keysOrdered_def)
  from setAll_ordered [OF this] show ?case
    by (simp add: createFromRefKeys_setAll m)
qed (simp_all add: policyLeaf_def)

text \<open>
  No extra path is reported when the target has no element and no property of its
  own.
\<close>

lemma arrayLoop_no_extra:
  assumes "\<forall>r \<in> set rs. \<forall>p st. extra (snd (reorderLike m r JUndefined p st)) = extra st"
  shows "extra (snd (arrayLoop m rs [] i p out st)) = extra st"
  using assms
proof (induction rs arbitrary: i out st)
  case Nil
  show ?case by simp
next
  case (Cons r rs)
  from Cons.prems have ih: "\<And>i out st. extra (snd (arrayLoop m rs [] i p out st)) = extra st"
    using Cons.IH by simp
  from Cons.prems have r: "\<And>p st. extra (snd (reorderLike m r JUndefined p st)) = extra st"
    by simp
  show ?case by (simp add: ih r case_prod_beta pushMissing_def)
qed

lemma refKeysLoop_no_extra:
  assumes "\<forall>e \<in> set es. \<forall>t p st. elemsOf t = [] \<longrightarrow> propsOf t = [] \<longrightarrow>
      extra (snd (reorderLike m (snd e) t p st)) = extra st"
  shows "extra (snd (refKeysLoop m es [] p out st)) = extra st"
  using assms
proof (induction es arbitrary: out st)
  case Nil
  show ?case by simp
next
  case (Cons e es)
  obtain k r where e: "e = (k, r)" by (cases e)
  from Cons.prems have ih: "\<And>out st. extra (snd (refKeysLoop m es [] p out st)) = extra st"
    using Cons.IH by simp
  from Cons.prems e have r: "\<And>t p st. elemsOf t = [] \<Longrightarrow> propsOf t = [] \<Longrightarrow>
      extra (snd (reorderLike m r t p st)) = extra st"
    by simp
  have r1: "\<And>p st. extra (snd (reorderLike m r JUndefined p st)) = extra st"
    by (rule r) simp_all
  have r2: "\<And>p st. extra (snd (reorderLike m r (objRead [] k) p st)) = extra st"
    by (rule r) (simp_all add: objRead_def)
  show ?case unfolding e by (simp add: ih r1 r2 case_prod_beta pushMissing_def)
qed

lemma reorderLike_no_extra:
  "elemsOf t = [] \<Longrightarrow> propsOf t = [] \<Longrightarrow> extra (snd (reorderLike m r t p st)) = extra st"
proof (induction r arbitrary: t p st)
  case (JArr xs ps)
  then have "\<forall>r \<in> set xs. \<forall>p st. extra (snd (reorderLike m r JUndefined p st)) = extra st"
    by simp
  from arrayLoop_no_extra [OF this] JArr.prems show ?case by (simp add: case_prod_beta)
next
  case (JObj es)
  have "\<forall>e \<in> set es. \<forall>t p st. elemsOf t = [] \<longrightarrow> propsOf t = [] \<longrightarrow>
      extra (snd (reorderLike m (snd e) t p st)) = extra st"
  proof
    fix e assume e: "e \<in> set es"
    obtain k v where kv: "e = (k, v)" by (cases e)
    with JObj.IH [of e v] e
    show "\<forall>t p st. elemsOf t = [] \<longrightarrow> propsOf t = [] \<longrightarrow>
      extra (snd (reorderLike m (snd e) t p st)) = extra st" by simp
  qed
  from refKeysLoop_no_extra [OF this] JObj.prems show ?case by (simp add: case_prod_beta)
qed (simp_all add: pushMissing_def)

lemma refKeysLoop_missing_mono:
  "set (missing st) \<subseteq> set (missing (snd (refKeysLoop m es tobj p out st)))"
  by (subst refKeysLoop_st) (simp add: appendStats_def)

lemma refKeysLoop_missing_recorded:
  "k \<in> fst ` set es \<Longrightarrow> \<not> keyIn k tobj \<Longrightarrow>
   objPath p k \<in> set (missing (snd (refKeysLoop m es tobj p out st)))"
proof (induction es arbitrary: out st)
  case Nil
  then show ?case by simp
next
  case (Cons e es)
  obtain k' r where e: "e = (k', r)" by (cases e)
  show ?case
  proof (cases "k = k'")
    case True
    have "\<And>out st. objPath p k \<in> set (missing (pushMissing (objPath p k) st))"
      by (simp add: pushMissing_def)
    with refKeysLoop_missing_mono [of _ m es tobj p] have
      "\<And>out st. objPath p k \<in> set (missing (snd (refKeysLoop m es tobj p out (pushMissing (objPath p k) st))))"
      by blast
    with True Cons.prems(2) show ?thesis unfolding e by (simp add: case_prod_beta)
  next
    case False
    with Cons.prems e have "k \<in> fst ` set es" by auto
    from Cons.IH [OF this Cons.prems(2)] show ?thesis unfolding e by (simp add: case_prod_beta)
  qed
qed

lemma leaf_target_as_empty:
  assumes "isLeaf t"
  shows "reorderLike m (JObj refObj) t p st = reorderLike m (JObj refObj) (JObj []) p st"
    and "\<forall>k \<in> fst ` set refObj. \<not> inherited k \<longrightarrow>
           objPath p k \<in> set (missing (snd (reorderLike m (JObj refObj) t p st)))"
proof -
  from assms have pt: "propsOf t = []" by (cases t) simp_all
  show "reorderLike m (JObj refObj) t p st = reorderLike m (JObj refObj) (JObj []) p st"
    by (simp add: pt)
  show "\<forall>k \<in> fst ` set refObj. \<not> inherited k \<longrightarrow>
           objPath p k \<in> set (missing (snd (reorderLike m (JObj refObj) t p st)))"
  proof (intro ballI impI)
    fix k assume k: "k \<in> fst ` set refObj" and nk: "\<not> inherited k"
    from nk have "\<not> keyIn k []" by (simp add: keyIn_def hasOwn_def)
    from refKeysLoop_missing_recorded [OF k this, of p m "[]" st]
    show "objPath p k \<in> set (missing (snd (reorderLike m (JObj refObj) t p st)))"
      by (simp add: pt case_prod_beta)
  qed
qed

lemmas merge_eval = normalize_def emptyStats_def pushMissing_def pushExtra_def objPath_def arrPath_def
  isContainer_def keyIn_def hasOwn_def objGet_def objRead_def inheritedValue_def objectPrototypeNames_def
  missingLeaf_def showNat.simps jstr_def


text \<open>
  The scenario of the specification: reference \<^verbatim>\<open>{greeting: "Hi", farewell: "Bye"}\<close>,
  target \<^verbatim>\<open>{greeting: "Salut"}\<close>, mode \<^verbatim>\<open>blank\<close>.
\<close>

lemma scenario_blank_merge: "normalize (jstr ''blank'') (JObj [(Name (jstr ''greeting''), JStr (jstr ''Hi'')), (Name (jstr ''farewell''), JStr (jstr ''Bye''))])
     (JObj [(Name (jstr ''greeting''), JStr (jstr ''Salut''))])
  = (JObj [(Name (jstr ''greeting''), JStr (jstr ''Salut'')), (Name (jstr ''farewell''), JStr [])], \<lparr>missing = [jstr ''farewell''], extra = []\<rparr>)"
  by (simp add: merge_eval)

lemma yamlValue_nodeAt:
  "yamlValue r \<Longrightarrow> \<not> isUndefined (nodeAt r pos) \<Longrightarrow> yamlValue (nodeAt r pos)"
proof (induction pos arbitrary: r)
  case Nil
  then show ?case by simp
next
  case (Cons s pos)
  show ?case
  proof (cases r)
    case (JArr xs ps)
    with Cons.prems(2) obtain i where s: "s = AtIndex i" by (cases s) auto
    from Cons.prems(2) JArr s have d: "\<not> isUndefined (nodeAt (arrGet xs i) pos)" by simp
    then have "\<not> isUndefined (arrGet xs i)" by (cases "arrGet xs i") auto
    with Cons.prems(1) JArr have "yamlValue (arrGet xs i)" by (simp add: yamlValue_arrGet)
    from Cons.IH [OF this d] JArr s show ?thesis by simp
  next
    case (JObj es)
    with Cons.prems(2) obtain k where s: "s = AtKey k" by (cases s) auto
    from Cons.prems(2) JObj s have d: "\<not> isUndefined (nodeAt (objGet es k) pos)" by simp
    then have "\<not> isUndefined (objGet es k)" by (cases "objGet es k") auto
    with Cons.prems(1) JObj have "yamlValue (objGet es k)" by (simp add: yamlValue_objGet)
    from Cons.IH [OF this d] JObj s show ?thesis by simp
  qed (use Cons.prems(2) in \<open>simp_all\<close>)
qed

lemmas tree_eval = keysOrdered_def arrGet_def objGet_def


subsection \<open>Objects in enumeration order\<close>

lemma goesBefore_keyBefore: "goesBefore k k' \<Longrightarrow> keyBefore k k'"
  by (cases k; cases k') auto

lemma goesBefore_trans: "goesBefore k k' \<Longrightarrow> keyBefore k' k'' \<Longrightarrow> goesBefore k k''"
  by (cases k; cases k'; cases k'') auto

lemma not_goesBefore_keyBefore: "\<not> goesBefore k k' \<Longrightarrow> k \<noteq> k' \<Longrightarrow> keyBefore k' k"
  by (cases k; cases k') auto

lemma keys_objSet: "fst ` set (objSet k v es) = insert k (fst ` set es)"
proof -
  have "dom (map_of (objSet k v es)) = insert k (dom (map_of es))"
    by (simp add: map_of_objSet)
  then show ?thesis by (simp add: dom_map_of_conv_image_fst)
qed

lemma objSet_front:
  "\<forall>k' \<in> fst ` set es. goesBefore k k' \<Longrightarrow> objSet k v es = (k, v) # es"
proof (cases es)
  case Nil
  then show ?thesis by simp
next
  case (Cons e es')
  obtain k' v' where e: "e = (k', v')" by (cases e)
  assume "\<forall>k' \<in> fst ` set es. goesBefore k k'"
  with Cons e have g: "goesBefore k k'" by simp
  then have "k' \<noteq> k" by (cases k; cases k') auto
  with g Cons e show ?thesis by simp
qed

lemma keysOrdered_Cons:
  "keysOrdered ((k, v) # es) \<longleftrightarrow> (\<forall>k' \<in> fst ` set es. keyBefore k k') \<and> keysOrdered es"
  by (simp add: keysOrdered_def)

lemma keysOrdered_objSet:
  "keysOrdered es \<Longrightarrow> k \<notin> fst ` set es \<Longrightarrow> keysOrdered (objSet k v es)"
proof (induction es)
  case Nil
  show ?case by (simp add: keysOrdered_def)
next
  case (Cons e es)
  obtain k' v' where e: "e = (k', v')" by (cases e)
  from Cons.prems e have ne: "k' \<noteq> k" and nk: "k \<notin> fst ` set es"
    and o: "keysOrdered es" and b: "\<forall>x \<in> fst ` set es. keyBefore k' x"
    by (auto simp: keysOrdered_Cons)
  show ?case
  proof (cases "goesBefore k k'")
    case True
    have "\<forall>x \<in> fst ` set es. keyBefore k x"
    proof
      fix x assume "x \<in> fst ` set es"
      with b have "keyBefore k' x" by blast
      from goesBefore_trans [OF True this] show "keyBefore k x" by (rule goesBefore_keyBefore)
    qed
    with True ne o b have "keysOrdered ((k, v) # (k', v') # es)"
      by (simp add: keysOrdered_Cons goesBefore_keyBefore)
    with True ne show ?thesis unfolding e by simp
  next
    case False
    with ne have kb: "keyBefore k' k" by (auto dest: not_goesBefore_keyBefore)
    from Cons.IH [OF o nk] have o': "keysOrdered (objSet k v es)" .
    have "\<forall>x \<in> fst ` set (objSet k v es). keyBefore k' x"
      unfolding keys_objSet using kb b by simp
    with o' have "keysOrdered ((k', v') # objSet k v es)" by (simp add: keysOrdered_Cons)
    with False ne show ?thesis unfolding e by simp
  qed
qed

lemma filter_objSet:
  "keysOrdered es \<Longrightarrow> k \<notin> fst ` set es \<Longrightarrow>
   filter (\<lambda>e. P (fst e)) (objSet k v es)
   = (if P k then objSet k v (filter (\<lambda>e. P (fst e)) es) else filter (\<lambda>e. P (fst e)) es)"
proof (induction es)
  case Nil
  show ?case by simp
next
  case (Cons e es)
  obtain k' v' where e: "e = (k', v')" by (cases e)
  from Cons.prems e have ne: "k' \<noteq> k" and nk: "k \<notin> fst ` set es"
    and o: "keysOrdered es" and b: "\<forall>x \<in> fst ` set es. keyBefore k' x"
    by (auto simp: keysOrdered_Cons)
  note ih = Cons.IH [OF o nk]
  show ?case
  proof (cases "goesBefore k k'")
    case True
    have "\<forall>x \<in> fst ` set (filter (\<lambda>e. P (fst e)) es). goesBefore k x"
    proof
      fix x assume "x \<in> fst ` set (filter (\<lambda>e. P (fst e)) es)"
      then have "x \<in> fst ` set es" by auto
      with b have "keyBefore k' x" by blast
      from goesBefore_trans [OF True this] show "goesBefore k x" .
    qed
    from objSet_front [OF this] True ne show ?thesis unfolding e by simp
  next
    case False
    with ne ih show ?thesis unfolding e by simp
  qed
qed

lemma keysOrdered_filter: "keysOrdered es \<Longrightarrow> keysOrdered (filter (\<lambda>e. P (fst e)) es)"
proof (induction es)
  case Nil
  show ?case by (simp add: keysOrdered_def)
next
  case (Cons e es)
  obtain k v where e: "e = (k, v)" by (cases e)
  from Cons.prems e have o: "keysOrdered es" and b: "\<forall>x \<in> fst ` set es. keyBefore k x"
    by (auto simp: keysOrdered_Cons)
  from b have "\<forall>x \<in> fst ` set (filter (\<lambda>e. P (fst e)) es). keyBefore k x" by auto
  with Cons.IH [OF o] show ?case unfolding e by (simp add: keysOrdered_Cons)
qed

lemma filter_setAll:
  "keysOrdered out \<Longrightarrow> distinct (map fst kvs) \<Longrightarrow> fst ` set kvs \<inter> fst ` set out = {} \<Longrightarrow>
   filter (\<lambda>e. P (fst e)) (setAll out kvs)
   = setAll (filter (\<lambda>e. P (fst e)) out) (filter (\<lambda>e. P (fst e)) kvs)"
proof (induction kvs arbitrary: out)
  case Nil
  show ?case by simp
next
  case (Cons e kvs)
  obtain k v where e: "e = (k, v)" by (cases e)
  from Cons.prems e have nk: "k \<notin> fst ` set out" and d: "distinct (map fst kvs)"
    and nkk: "k \<notin> fst ` set kvs" and dj: "fst ` set kvs \<inter> fst ` set out = {}"
    by auto
  have o': "keysOrdered (objSet k v out)" using Cons.prems(1) nk by (rule keysOrdered_objSet)
  have dj': "fst ` set kvs \<inter> fst ` set (objSet k v out) = {}"
    unfolding keys_objSet using dj nkk by auto
  from Cons.IH [OF o' d dj'] filter_objSet [OF Cons.prems(1) nk, of P v]
  show ?case unfolding e by simp
qed

subsection \<open>A second merge\<close>

lemma arrayLoop_Cons_step:
  "arrayLoop m (r # rs) ts i p [] emptyStats
   = (arrayElem m r (headOr ts) (arrPath p i) # fst (arrayLoop m rs (tl ts) (Suc i) p [] emptyStats),
      appendStats (elemReport m r (headOr ts) (arrPath p i))
        (snd (arrayLoop m rs (tl ts) (Suc i) p [] emptyStats)))"
  by (simp add: arrayElem_def elemReport_def missingChild_def presentChild_def case_prod_beta
      arrayLoop_st [of m rs "tl ts" "Suc i" p "[x]" for x])

lemma refKeysLoop_Cons_step:
  "refKeysLoop m ((k, r) # es) tobj p out st
   = refKeysLoop m es tobj p
       (objSet k (propValue m r (keyIn k tobj) (objRead tobj k) (objPath p k)) out)
       (appendStats st (propReport m r (keyIn k tobj) (objRead tobj k) (objPath p k)))"
  by (simp add: propValue_def propReport_def missingChild_def presentChild_def case_prod_beta
      reorderLike_st [of m r _ _ st] pushMissing_as_append appendStats_assoc)

lemma refVals_Cons:
  "refVals m ((k, r) # es) tobj p
   = (k, propValue m r (keyIn k tobj) (objRead tobj k) (objPath p k)) # refVals m es tobj p"
  by (simp add: refVals_def propValue_def)

lemma refKeysLoop_report_Cons:
  "snd (refKeysLoop m ((k, r) # es) tobj p [] emptyStats)
   = appendStats (propReport m r (keyIn k tobj) (objRead tobj k) (objPath p k))
       (snd (refKeysLoop m es tobj p [] emptyStats))"
  by (subst refKeysLoop_Cons_step, subst refKeysLoop_st) simp

lemma missingLeaf_defined: "\<not> isUndefined r \<Longrightarrow> \<not> isUndefined (missingLeaf m r)"
  by (simp add: missingLeaf_def)

lemma reorderLike_container:
  "isContainer r \<Longrightarrow> isContainer (fst (reorderLike m r t p st))"
  by (cases r) (simp_all add: isContainer_def case_prod_beta)

lemma container_defined: "isContainer v \<Longrightarrow> \<not> isUndefined v"
  by (cases v) (simp_all add: isContainer_def)

lemma arrayElem_defined:
  "\<not> isUndefined r \<Longrightarrow> \<not> isUndefined (arrayElem m r tv q)"
  by (simp add: arrayElem_def missingChild_def presentChild_def missingLeaf_defined
      reorderLike_container container_defined)

text \<open>
  A second merge of what a first merge returned: the same tree, nothing missing,
  the same extra paths.
\<close>

lemma targetShaped_intros:
  "targetShaped (JUndefined :: 'a jsval)"
  "yamlValue t \<Longrightarrow> targetShaped t"
  "targetShaped (inheritedValue k :: 'a jsval)"
proof -
  show "targetShaped (JUndefined :: 'a jsval)" by (simp add: targetShaped_def keysOrdered_def)
  show "targetShaped (inheritedValue k :: 'a jsval)" by (simp add: targetShaped_def keysOrdered_def)
  show "yamlValue t \<Longrightarrow> targetShaped t"
    by (cases t) (simp_all add: targetShaped_def keysOrdered_def)
qed

lemma elem_idem:
  assumes r: "\<not> isUndefined r"
    and idem: "\<And>t p. targetShaped t \<Longrightarrow>
      reorderLike m r (fst (reorderLike m r t p emptyStats)) p emptyStats
      = (fst (reorderLike m r t p emptyStats),
         \<lparr>missing = [], extra = extra (snd (reorderLike m r t p emptyStats))\<rparr>)"
    and tv: "isUndefined tv \<or> yamlValue tv"
  shows "arrayElem m r (arrayElem m r tv q) q = arrayElem m r tv q"
    and "elemReport m r (arrayElem m r tv q) q
         = \<lparr>missing = [], extra = extra (elemReport m r tv q)\<rparr>"
proof -
  have d: "\<not> isUndefined (arrayElem m r tv q)" using r by (rule arrayElem_defined)
  have u: "targetShaped (JUndefined :: 'a jsval)" by (rule targetShaped_intros)
  have ts: "targetShaped tv" using tv by (cases tv) (auto intro: targetShaped_intros)
  show "arrayElem m r (arrayElem m r tv q) q = arrayElem m r tv q"
  proof (cases "isContainer r")
    case True
    show ?thesis
    proof (cases "isUndefined tv")
      case True
      with \<open>isContainer r\<close> r idem [OF u, of q] d show ?thesis
        by (simp add: arrayElem_def missingChild_def presentChild_def)
    next
      case False
      with \<open>isContainer r\<close> r idem [OF ts, of q] d show ?thesis
        by (simp add: arrayElem_def missingChild_def presentChild_def)
    qed
  next
    case False
    with r d show ?thesis
      by (simp add: arrayElem_def [of m r "arrayElem m r tv q"] presentChild_def)
  qed
  show "elemReport m r (arrayElem m r tv q) q
         = \<lparr>missing = [], extra = extra (elemReport m r tv q)\<rparr>"
  proof (cases "isContainer r")
    case True
    show ?thesis
    proof (cases "isUndefined tv")
      case True
      with \<open>isContainer r\<close> r idem [OF u, of q] d show ?thesis
        by (simp add: arrayElem_def elemReport_def missingChild_def presentChild_def pushMissing_def)
    next
      case False
      with \<open>isContainer r\<close> r idem [OF ts, of q] d show ?thesis
        by (simp add: arrayElem_def elemReport_def missingChild_def presentChild_def pushMissing_def)
    qed
  next
    case False
    with r d show ?thesis
      by (simp add: elemReport_def pushMissing_def emptyStats_def)
  qed
qed

lemma arrayLoop_Nil_yaml:
  "yamlValues ts \<Longrightarrow>
   fst (arrayLoop m [] ts i p out st) = out @ ts
   \<and> missing (snd (arrayLoop m [] ts i p out st)) = missing st"
proof (induction ts arbitrary: i out st)
  case Nil
  show ?case by simp
next
  case (Cons t ts)
  then have "\<not> isUndefined t" "yamlValues ts" by (auto dest: yamlValue_defined)
  with Cons.IH show ?case by (simp add: pushExtra_def)
qed

lemma stats_no_missing: "missing S = [] \<Longrightarrow> S = \<lparr>missing = [], extra = extra S\<rparr>"
  by (cases S) simp

lemma arrayLoop_idem:
  assumes "\<forall>r \<in> set rs. \<not> isUndefined r \<and> (\<forall>t p. targetShaped t \<longrightarrow>
      reorderLike m r (fst (reorderLike m r t p emptyStats)) p emptyStats
      = (fst (reorderLike m r t p emptyStats),
         \<lparr>missing = [], extra = extra (snd (reorderLike m r t p emptyStats))\<rparr>))"
    and "yamlValues ts"
  shows "arrayLoop m rs (fst (arrayLoop m rs ts i p [] emptyStats)) i p [] emptyStats
     = (fst (arrayLoop m rs ts i p [] emptyStats),
        \<lparr>missing = [], extra = extra (snd (arrayLoop m rs ts i p [] emptyStats))\<rparr>)"
  using assms
proof (induction rs arbitrary: ts i)
  case Nil
  from arrayLoop_Nil_yaml [OF Nil(2), of m i p "[]" emptyStats]
  have f: "fst (arrayLoop m [] ts i p [] emptyStats) = ts"
    and ms: "missing (snd (arrayLoop m [] ts i p [] emptyStats)) = []"
    by (simp_all add: emptyStats_def)
  show ?case unfolding f
    using f stats_no_missing [OF ms] by (metis prod.collapse)
next
  case (Cons r rs)
  let ?q = "arrPath p i"
  let ?tv = "headOr ts"
  let ?L = "arrayLoop m rs (tl ts) (Suc i) p [] emptyStats"
  from Cons.prems(1) have rd: "\<not> isUndefined r" by simp
  from Cons.prems(1) have idem: "\<And>t p. targetShaped t \<Longrightarrow>
      reorderLike m r (fst (reorderLike m r t p emptyStats)) p emptyStats
      = (fst (reorderLike m r t p emptyStats),
         \<lparr>missing = [], extra = extra (snd (reorderLike m r t p emptyStats))\<rparr>)"
    by (meson list.set_intros(1))
  from Cons.prems(1) have rest: "\<forall>r \<in> set rs. \<not> isUndefined r \<and> (\<forall>t p. targetShaped t \<longrightarrow>
      reorderLike m r (fst (reorderLike m r t p emptyStats)) p emptyStats
      = (fst (reorderLike m r t p emptyStats),
         \<lparr>missing = [], extra = extra (snd (reorderLike m r t p emptyStats))\<rparr>))"
    by simp
  from Cons.prems(2) have tl: "yamlValues (tl ts)" and tv: "isUndefined ?tv \<or> yamlValue ?tv"
    by (cases ts; simp)+
  note ih = Cons.IH [OF rest tl, of "Suc i"]
  note e = elem_idem [OF rd idem tv, of ?q]
  have first: "arrayLoop m (r # rs) ts i p [] emptyStats
      = (arrayElem m r ?tv ?q # fst ?L, appendStats (elemReport m r ?tv ?q) (snd ?L))"
    by (rule arrayLoop_Cons_step)
  have second: "arrayLoop m (r # rs) (arrayElem m r ?tv ?q # fst ?L) i p [] emptyStats
      = (arrayElem m r ?tv ?q # fst ?L,
         appendStats \<lparr>missing = [], extra = extra (elemReport m r ?tv ?q)\<rparr>
           \<lparr>missing = [], extra = extra (snd ?L)\<rparr>)"
    by (subst arrayLoop_Cons_step) (simp add: e ih)
  show ?case unfolding first fst_conv snd_conv second
    by (simp add: appendStats_def)
qed

lemma propValue_idem:
  assumes idem: "\<And>t p. targetShaped t \<Longrightarrow>
      reorderLike m r (fst (reorderLike m r t p emptyStats)) p emptyStats
      = (fst (reorderLike m r t p emptyStats),
         \<lparr>missing = [], extra = extra (snd (reorderLike m r t p emptyStats))\<rparr>)"
    and tv: "present \<longrightarrow> targetShaped tv"
  shows "propValue m r True (propValue m r present tv q) q = propValue m r present tv q"
    and "propReport m r True (propValue m r present tv q) q
         = \<lparr>missing = [], extra = extra (propReport m r present tv q)\<rparr>"
proof -
  have u: "targetShaped (JUndefined :: 'a jsval)" by (rule targetShaped_intros)
  show "propValue m r True (propValue m r present tv q) q = propValue m r present tv q"
  proof (cases "isContainer r")
    case True
    show ?thesis
    proof (cases present)
      case True
      with tv have "targetShaped tv" by simp
      from idem [OF this, of q] True \<open>isContainer r\<close> show ?thesis
        by (simp add: propValue_def presentChild_def)
    next
      case False
      with idem [OF u, of q] \<open>isContainer r\<close> show ?thesis
        by (simp add: propValue_def presentChild_def missingChild_def)
    qed
  next
    case False
    then show ?thesis by (simp add: propValue_def presentChild_def)
  qed
  show "propReport m r True (propValue m r present tv q) q
         = \<lparr>missing = [], extra = extra (propReport m r present tv q)\<rparr>"
  proof (cases "isContainer r")
    case True
    show ?thesis
    proof (cases present)
      case True
      with tv have "targetShaped tv" by simp
      from idem [OF this, of q] True \<open>isContainer r\<close> show ?thesis
        by (simp add: propValue_def propReport_def presentChild_def)
    next
      case False
      with idem [OF u, of q] \<open>isContainer r\<close> show ?thesis
        by (simp add: propValue_def propReport_def presentChild_def missingChild_def pushMissing_def)
    qed
  next
    case False
    then show ?thesis by (simp add: propReport_def pushMissing_def emptyStats_def)
  qed
qed

lemma refKeysLoop_second:
  assumes "\<forall>e \<in> set es. (\<forall>t p. targetShaped t \<longrightarrow>
      reorderLike m (snd e) (fst (reorderLike m (snd e) t p emptyStats)) p emptyStats
      = (fst (reorderLike m (snd e) t p emptyStats),
         \<lparr>missing = [], extra = extra (snd (reorderLike m (snd e) t p emptyStats))\<rparr>))"
    and "yamlProps tobj"
    and "\<forall>e \<in> set es. keyIn (fst e) obj
           \<and> objRead obj (fst e)
             = propValue m (snd e) (keyIn (fst e) tobj) (objRead tobj (fst e)) (objPath p (fst e))"
  shows "refKeysLoop m es obj p out st
     = (setAll out (refVals m es tobj p),
        appendStats st \<lparr>missing = [], extra = extra (snd (refKeysLoop m es tobj p [] emptyStats))\<rparr>)"
  using assms
proof (induction es arbitrary: out st)
  case Nil
  show ?case by (simp add: refVals_def appendStats_def emptyStats_def)
next
  case (Cons e es)
  obtain k r where e: "e = (k, r)" by (cases e)
  let ?q = "objPath p k"
  let ?V = "propValue m r (keyIn k tobj) (objRead tobj k) ?q"
  from Cons.prems(1) e have idem: "\<And>t p. targetShaped t \<Longrightarrow>
      reorderLike m r (fst (reorderLike m r t p emptyStats)) p emptyStats
      = (fst (reorderLike m r t p emptyStats),
         \<lparr>missing = [], extra = extra (snd (reorderLike m r t p emptyStats))\<rparr>)"
    by (metis list.set_intros(1) snd_conv)
  from Cons.prems(1) have rest1: "\<forall>e \<in> set es. (\<forall>t p. targetShaped t \<longrightarrow>
      reorderLike m (snd e) (fst (reorderLike m (snd e) t p emptyStats)) p emptyStats
      = (fst (reorderLike m (snd e) t p emptyStats),
         \<lparr>missing = [], extra = extra (snd (reorderLike m (snd e) t p emptyStats))\<rparr>))"
    by simp
  from Cons.prems(3) have rest3: "\<forall>e \<in> set es. keyIn (fst e) obj
           \<and> objRead obj (fst e)
             = propValue m (snd e) (keyIn (fst e) tobj) (objRead tobj (fst e)) (objPath p (fst e))"
    by simp
  from Cons.prems(3) e have hk: "keyIn k obj" and og: "objRead obj k = ?V" by simp_all
  have tv: "keyIn k tobj \<longrightarrow> targetShaped (objRead tobj k)"
  proof (cases "map_of tobj k")
    case None
    then show ?thesis by (simp add: objRead_def targetShaped_intros)
  next
    case (Some v)
    then have "(k, v) \<in> set tobj" by (rule map_of_SomeD)
    with Cons.prems(2) have "yamlValue v" by (auto simp: yamlProps_iff)
    with Some show ?thesis by (simp add: objRead_def targetShaped_intros)
  qed
  note pv = propValue_idem [OF idem tv, of ?q]
  note ih = Cons.IH [OF rest1 Cons.prems(2) rest3]
  show ?case unfolding e
    apply (subst refKeysLoop_Cons_step)
    apply (subst refKeysLoop_report_Cons)
    apply (subst refVals_Cons)
    apply (simp add: hk og pv ih appendStats_def)
    done
qed

lemma map_of_objects:
  assumes "map_of es k = Some r" and "distinct (map fst es)"
  shows "map_of (setAll (setAll [] (refVals m es tobj p))
                   (filter (\<lambda>e. \<not> keyIn (fst e) es) tobj)) k
         = Some (propValue m r (keyIn k tobj) (objRead tobj k) (objPath p k))"
proof -
  let ?B = "filter (\<lambda>e. \<not> keyIn (fst e) es) tobj"
  let ?A = "refVals m es tobj p"
  from assms(1) have "keyIn k es" by (simp add: keyIn_def hasOwn_def)
  then have kB: "k \<notin> fst ` set ?B" by auto
  have "map_of (setAll (setAll [] ?A) ?B) k = map_of (setAll [] ?A) k"
    using kB by (rule map_of_setAll_other)
  also have "\<dots> = map_of ?A k"
    using assms(2) by (simp add: map_of_setAll_distinct)
  finally show ?thesis by (simp add: map_of_refVals [OF assms] propValue_def)
qed

lemma target_only_unchanged:
  assumes ko: "keysOrdered es" and kt: "keysOrdered tobj"
  shows "filter (\<lambda>e. \<not> keyIn (fst e) es)
           (setAll (setAll [] (refVals m es tobj p)) (filter (\<lambda>e. \<not> keyIn (fst e) es) tobj))
         = filter (\<lambda>e. \<not> keyIn (fst e) es) tobj"
proof -
  let ?P = "\<lambda>k. \<not> keyIn k es"
  let ?B = "filter (\<lambda>e. ?P (fst e)) tobj"
  let ?A = "refVals m es tobj p"
  have kA: "keysOrdered ?A" using ko by (simp add: keysOrdered_def)
  then have "keysOrdered ([] @ ?A)" by simp
  from setAll_ordered [OF this] have sA: "setAll [] ?A = ?A" by simp
  have kB: "keysOrdered ?B" using kt by (rule keysOrdered_filter)
  then have "keysOrdered ([] @ ?B)" by simp
  from setAll_ordered [OF this] have sB: "setAll [] ?B = ?B" by simp
  have dB: "distinct (map fst ?B)" using kB by (rule keysOrdered_distinct)
  have keysA: "fst ` set ?A = fst ` set es"
    using map_fst_refVals [of m es tobj p] by (metis set_map)
  have dj: "fst ` set ?B \<inter> fst ` set ?A = {}"
    unfolding keysA by (auto simp: keyIn_iff)
  have fA: "filter (\<lambda>e. ?P (fst e)) ?A = []"
    using keysA by (auto simp: filter_empty_conv keyIn_iff)
  have fB: "filter (\<lambda>e. ?P (fst e)) ?B = ?B" by simp
  from filter_setAll [OF kA dB dj, of ?P] show ?thesis
    unfolding sA by (simp add: fA sB)
qed

lemma emptyStats_sel: "missing emptyStats = []" "extra emptyStats = []"
  by (simp_all add: emptyStats_def)

lemma yamlValues_elemsOf: "isUndefined t \<or> yamlValue t \<Longrightarrow> yamlValues (elemsOf t)"
  by (cases t) auto

lemma yamlProps_propsOf:
  "isUndefined t \<or> yamlValue t \<Longrightarrow> yamlProps (propsOf t) \<and> keysOrdered (propsOf t)"
  by (cases t) (auto simp: keysOrdered_def)

subsection \<open>Keys of the target alone\<close>

lemma setAll_append: "setAll out (xs @ ys) = setAll (setAll out xs) ys"
  by (induction xs arbitrary: out) auto

text \<open>
  What holds of the keys of the target that are not \<^verbatim>\<open>in\<close> the reference (neither
  a key of the reference nor the name of a member of \<^verbatim>\<open>Object.prototype\<close>): each is
  kept with its value and reported as extra, and those that are names (not array
  indices) stand after all reference keys, in the target's order.
\<close>

lemma target_only_keys_kept:
  assumes "map_of tobj k = Some v" and "\<not> keyIn k es" and "distinct (map fst tobj)"
  shows "getProp (fst (reorderLike m (JObj es) (JObj tobj) p st)) k = v
     \<and> objPath p k \<in> set (extra (snd (reorderLike m (JObj es) (JObj tobj) p st)))"
proof -
  let ?B = "filter (\<lambda>e. \<not> keyIn (fst e) es) tobj"
  let ?A = "refVals m es tobj p"
  from assms(1) have "(k, v) \<in> set tobj" by (rule map_of_SomeD)
  with assms(2) have kB: "(k, v) \<in> set ?B" by simp
  have dB: "distinct (map fst ?B)" using assms(3) by (simp add: distinct_map_filter)
  with kB have "map_of ?B k = Some v" by simp
  then have "map_of (setAll (setAll [] ?A) ?B) k = Some v"
    by (simp add: map_of_setAll_distinct [OF dB])
  then have a: "getProp (fst (reorderLike m (JObj es) (JObj tobj) p st)) k = v"
    unfolding reorderLike_obj_fst by (simp add: objGet_def)
  from kB have "objPath p k \<in> set (map (\<lambda>e. objPath p (fst e)) ?B)" by force
  then have b: "objPath p k \<in> set (extra (snd (reorderLike m (JObj es) (JObj tobj) p st)))"
    by (simp add: case_prod_beta tgtKeysLoop_decomp appendStats_def)
  from a b show ?thesis by simp
qed

lemma target_only_names_appended:
  assumes ko: "keysOrdered es" and kt: "keysOrdered tobj"
    and names: "\<forall>e \<in> set tobj. \<not> keyIn (fst e) es \<longrightarrow> (\<exists>s. fst e = Name s)"
  shows "fst (reorderLike m (JObj es) (JObj tobj) p st)
     = JObj (refVals m es tobj p @ filter (\<lambda>e. \<not> keyIn (fst e) es) tobj)"
proof -
  let ?B = "filter (\<lambda>e. \<not> keyIn (fst e) es) tobj"
  let ?A = "refVals m es tobj p"
  have kA: "sorted_wrt keyBefore (map fst ?A)" using ko by (simp add: keysOrdered_def)
  have kB: "sorted_wrt keyBefore (map fst ?B)"
    using keysOrdered_filter [OF kt, of "\<lambda>k. \<not> keyIn k es"] by (simp add: keysOrdered_def)
  have cross: "\<forall>a \<in> set (map fst ?A). \<forall>b \<in> set (map fst ?B). keyBefore a b"
  proof (intro ballI)
    fix a b assume a: "a \<in> set (map fst ?A)" and b: "b \<in> set (map fst ?B)"
    from a have ha: "keyIn a es" by (simp add: keyIn_iff)
    from b obtain e where e: "e \<in> set tobj" "\<not> keyIn (fst e) es" "b = fst e" by auto
    with names obtain s where s: "b = Name s" by auto
    from ha e have "a \<noteq> b" by auto
    with s show "keyBefore a b" by (cases a) auto
  qed
  from kA kB cross have "keysOrdered ([] @ ?A @ ?B)"
    by (simp add: keysOrdered_def sorted_wrt_append)
  from setAll_ordered [OF this] have "setAll [] (?A @ ?B) = ?A @ ?B" by simp
  moreover have "setAll [] (?A @ ?B) = setAll (setAll [] ?A) ?B"
    by (rule setAll_append)
  ultimately show ?thesis unfolding reorderLike_obj_fst by simp
qed

text \<open>
  A key of the target alone that names a member of \<^verbatim>\<open>Object.prototype\<close> passes the
  test \<^verbatim>\<open>k in refObj\<close> of the second loop: it is left out of the output and is not
  reported. Reference \<^verbatim>\<open>{a: "x"}\<close>, target \<^verbatim>\<open>{a: "y", constructor: "z"}\<close>.
\<close>

lemma target_only_inherited_name_dropped:
  "yamlValue (JObj [(Name (jstr ''a''), JStr (jstr ''y'')),
       (Name (jstr ''constructor''), JStr (jstr ''z''))] :: int jsval)
   \<and> normalize (jstr ''empty'') (JObj [(Name (jstr ''a''), JStr (jstr ''x''))])
        (JObj [(Name (jstr ''a''), JStr (jstr ''y'')),
           (Name (jstr ''constructor''), JStr (jstr ''z''))] :: int jsval)
      = (JObj [(Name (jstr ''a''), JStr (jstr ''y''))], \<lparr>missing = [], extra = []\<rparr>)"
  by (simp add: merge_eval tree_eval)

subsection \<open>Target leaves are kept\<close>



subsection \<open>Idempotence of the merge\<close>



subsection \<open>Filling the built tree from the reference\<close>

lemma arrGet_arrSet_other: "j \<noteq> i \<Longrightarrow> arrGet (arrSet xs i v) j = arrGet xs j"
  by (auto simp: arrGet_def arrSet_def nth_append)

lemma arrSet_same: "\<not> isUndefined (arrGet xs i) \<Longrightarrow> arrSet xs i (arrGet xs i) = xs"
  by (auto simp: arrGet_def arrSet_def split: if_splits)

text \<open>One iteration of each loop writes the filled child at its position.\<close>

lemma fillElems_step:
  "fillElems tgt (r # rs) i mode
   = fillElems (arrSet tgt i (filledChild (arrGet tgt i) r mode)) rs (Suc i) mode"
  by (simp add: filledChild_def arrSet_same)

lemma fillElems_before:
  "j < i \<Longrightarrow> arrGet (fillElems tgt rs i mode) j = arrGet tgt j"
proof (induction rs arbitrary: tgt i)
  case Nil
  show ?case by simp
next
  case (Cons r rs)
  from Cons.prems have "j < Suc i" "j \<noteq> i" by simp_all
  with Cons.IH [of "Suc i"] show ?case
    unfolding fillElems_step by (simp add: arrGet_arrSet_other)
qed

lemma fillElems_at:
  "j < length rs \<Longrightarrow>
   arrGet (fillElems tgt rs i mode) (i + j) = filledChild (arrGet tgt (i + j)) (rs ! j) mode"
proof (induction rs arbitrary: tgt i j)
  case Nil
  then show ?case by simp
next
  case (Cons r rs)
  show ?case
  proof (cases j)
    case 0
    then show ?thesis
      unfolding fillElems_step by (simp add: fillElems_before arrGet_arrSet)
  next
    case (Suc j')
    with Cons.prems have "j' < length rs" by simp
    from Cons.IH [OF this, of _ "Suc i"] Suc show ?thesis
      unfolding fillElems_step by (simp add: arrGet_arrSet_other)
  qed
qed

lemma inheritedValue_plain: "\<not> inherited k \<Longrightarrow> inheritedValue k = JUndefined"
  by (cases k) (simp_all add: inheritedValue_def jstr_def objectPrototypeNames_def)

lemma objRead_plain: "\<not> inherited k \<Longrightarrow> objRead es k = objGet es k"
  by (simp add: objRead_def objGet_def inheritedValue_plain split: option.splits)

lemma fillProps_other:
  "k \<notin> fst ` set es \<Longrightarrow> objGet (fillProps tgt es mode) k = objGet tgt k"
proof (induction es arbitrary: tgt)
  case Nil
  show ?case by simp
next
  case (Cons e es)
  obtain k' r where e: "e = (k', r)" by (cases e)
  with Cons.prems have ne: "k \<noteq> k'" and nk: "k \<notin> fst ` set es" by auto
  from ne Cons.IH [OF nk] show ?case unfolding e by (simp add: objGet_objSet)
qed

lemma fillProps_first:
  assumes "\<not> inherited k" and "k \<notin> fst ` set es"
  shows "objGet (fillProps tgt ((k, r) # es) mode) k = filledChild (objGet tgt k) r mode"
proof (cases "hasOwn k tgt")
  case True
  with assms show ?thesis
    by (simp add: fillProps_other keyIn_def objRead_plain filledChild_def objGet_objSet)
next
  case False
  then have "objGet tgt k = JUndefined" by (simp add: objGet_def hasOwn_def)
  with False assms show ?thesis
    by (simp add: fillProps_other keyIn_def filledChild_def objGet_objSet)
qed

lemma fillProps_at:
  "map_of es k = Some r \<Longrightarrow> distinct (map fst es) \<Longrightarrow> \<not> inherited k \<Longrightarrow>
   objGet (fillProps tgt es mode) k = filledChild (objGet tgt k) r mode"
proof (induction es arbitrary: tgt)
  case Nil
  then show ?case by simp
next
  case (Cons e es)
  obtain k' r' where e: "e = (k', r')" by (cases e)
  from Cons.prems(2) e have d: "distinct (map fst es)" and nk': "k' \<notin> fst ` set es" by auto
  show ?case
  proof (cases "k' = k")
    case True
    with Cons.prems(1) e have rr: "r' = r" by simp
    from nk' True have "k \<notin> fst ` set es" by simp
    from fillProps_first [OF Cons.prems(3) this, of tgt r mode]
    show ?thesis unfolding e True rr .
  next
    case False
    with Cons.prems(1) e have mk: "map_of es k = Some r" by simp
    have "objGet (fillProps tgt ((k', r') # es) mode) k
        = filledChild (objGet (fillProps tgt [(k', r')] mode) k) r mode"
      using Cons.IH [OF mk d Cons.prems(3)] by simp
    also have "objGet (fillProps tgt [(k', r')] mode) k = objGet tgt k"
      using False by (intro fillProps_other) simp
    finally show ?thesis unfolding e .
  qed
qed

text \<open>The copy that \<^verbatim>\<open>createFromRef\<close> makes, at a position of the reference.\<close>

lemma map_of_created:
  "map_of (map (\<lambda>e. (fst e, f (snd e))) es) k = map_option f (map_of es k)"
  by (induction es) auto

lemma nodeAt_createFromRef:
  "yamlValue r \<Longrightarrow> \<not> isUndefined (nodeAt r pos) \<Longrightarrow>
   nodeAt (createFromRef r mode) pos = createFromRef (nodeAt r pos) mode"
proof (induction pos arbitrary: r)
  case Nil
  show ?case by simp
next
  case (Cons s pos)
  show ?case
  proof (cases r)
    case (JArr xs ps)
    with Cons.prems(2) obtain i where s: "s = AtIndex i" by (cases s) auto
    from Cons.prems(2) JArr s have d: "\<not> isUndefined (nodeAt (arrGet xs i) pos)" by simp
    then have xd: "\<not> isUndefined (arrGet xs i)" by (cases "arrGet xs i") auto
    with Cons.prems(1) JArr have y: "yamlValue (arrGet xs i)" by (simp add: yamlValue_arrGet)
    from xd have "i < length xs" by (auto simp: arrGet_def split: if_splits)
    then have "arrGet (map (\<lambda>v. createFromRef v mode) xs) i = createFromRef (arrGet xs i) mode"
      by (simp add: arrGet_def)
    with Cons.IH [OF y d] JArr s show ?thesis by simp
  next
    case (JObj es)
    with Cons.prems(2) obtain k where s: "s = AtKey k" by (cases s) auto
    from Cons.prems(2) JObj s have d: "\<not> isUndefined (nodeAt (objGet es k) pos)" by simp
    then have xd: "\<not> isUndefined (objGet es k)" by (cases "objGet es k") auto
    with Cons.prems(1) JObj have y: "yamlValue (objGet es k)" by (simp add: yamlValue_objGet)
    from objGet_defined [OF xd] obtain v where mk: "map_of es k = Some v"
      and ov: "objGet es k = v" by auto
    from Cons.prems(1) JObj have "distinct (map fst es)" by (simp add: keysOrdered_distinct)
    then have "distinct (map fst (map (\<lambda>e. (fst e, createFromRef (snd e) mode)) es))"
      by (simp add: comp_def)
    from map_of_setAll_distinct [OF this, of "[]"] mk
    have "objGet (createFromRefKeys es mode []) k = createFromRef v mode"
      by (simp add: createFromRefKeys_setAll objGet_def
          map_of_created [of "\<lambda>v. createFromRef v mode"])
    then have "objGet (createFromRefKeys es mode []) k = createFromRef (objGet es k) mode"
      by (simp add: ov)
    with Cons.IH [OF y d] JObj s show ?thesis by simp
  qed (use Cons.prems(2) in \<open>simp_all\<close>)
qed

text \<open>
  \<^verbatim>\<open>fillMissingFromRef\<close> fills a position that the tree lacks when every node of the
  tree above it is a container of the kind that the reference has there.
\<close>

lemma stepsFit_undefined [simp]: "stepsFit JUndefined pos"
proof (cases pos)
  case Nil
  then show ?thesis by simp
next
  case (Cons s ps)
  then show ?thesis by (cases s) simp_all
qed

lemma fill_child_at:
  fixes rv tv :: "'a jsval"
  assumes r: "yamlValue rv" and rd: "\<not> isUndefined (nodeAt rv pos)"
    and tu: "isUndefined (nodeAt tv pos)" and fit: "stepsFit tv pos"
    and ih: "\<And>(r :: 'a jsval) t. yamlValue r \<Longrightarrow> \<not> isUndefined (nodeAt r pos) \<Longrightarrow>
        isUndefined (nodeAt t pos) \<Longrightarrow> pos \<noteq> [] \<Longrightarrow> stepsFit t pos \<Longrightarrow>
        nodeAt (fillMissingFromRef t r mode) pos = createFromRef (nodeAt r pos) mode"
  shows "nodeAt (filledChild tv rv mode) pos = createFromRef (nodeAt rv pos) mode"
proof (cases "isUndefined tv")
  case True
  then show ?thesis by (simp add: filledChild_def nodeAt_createFromRef [OF r rd])
next
  case False
  with tu have ne: "pos \<noteq> []" by auto
  then obtain s' pos' where p: "pos = s' # pos'" by (cases pos) auto
  have "(isObject rv \<and> isObject tv) \<or> (isArray rv \<and> isArray tv)"
  proof (cases s')
    case (AtIndex i)
    with rd p have "isArray rv" by (cases rv) simp_all
    moreover from fit p AtIndex False have "isArray tv" by simp
    ultimately show ?thesis by simp
  next
    case (AtKey k)
    with rd p have "isObject rv" by (cases rv) simp_all
    moreover from fit p AtKey False have "isObject tv" by simp
    ultimately show ?thesis by simp
  qed
  with False have "filledChild tv rv mode = fillMissingFromRef tv rv mode"
    by (simp add: filledChild_def)
  with ih [OF r rd tu ne fit] show ?thesis by simp
qed

lemma fill_position:
  "yamlValue r \<Longrightarrow> \<not> isUndefined (nodeAt r pos) \<Longrightarrow> isUndefined (nodeAt t pos) \<Longrightarrow>
   pos \<noteq> [] \<Longrightarrow> list_all plainStep pos \<Longrightarrow> stepsFit t pos \<Longrightarrow>
   nodeAt (fillMissingFromRef t r mode) pos = createFromRef (nodeAt r pos) mode"
proof (induction pos arbitrary: r t)
  case Nil
  then show ?case by simp
next
  case (Cons s pos)
  from Cons.prems(5) have ps: "plainStep s" and pp: "list_all plainStep pos" by simp_all
  note ih = Cons.IH [OF _ _ _ _ pp]
  show ?case
  proof (cases r)
    case (JArr rs rps)
    with Cons.prems(2) obtain i where s: "s = AtIndex i" by (cases s) auto
    let ?rv = "arrGet rs i"
    let ?tv = "arrGet (elemsOf t) i"
    from Cons.prems(2) JArr s have rd: "\<not> isUndefined (nodeAt ?rv pos)" by simp
    then have rvd: "\<not> isUndefined ?rv" by (cases "?rv") auto
    from Cons.prems(1) JArr have "yamlValues rs" by simp
    from yamlValue_arrGet [OF this rvd] have rvy: "yamlValue ?rv" .
    from rvd have il: "i < length rs" by (auto simp: arrGet_def split: if_splits)
    have tu: "isUndefined (nodeAt ?tv pos)"
      using Cons.prems(3) s by (cases t) auto
    have fit: "stepsFit ?tv pos"
      using Cons.prems(6) s by (cases t) auto
    from fillElems_at [OF il, of "elemsOf t" 0 mode] il
    have "arrGet (fillElems (elemsOf t) rs 0 mode) i = filledChild ?tv ?rv mode"
      by (simp add: arrGet_def)
    with JArr s fill_child_at [OF rvy rd tu fit ih]
    show ?thesis by simp
  next
    case (JObj es)
    with Cons.prems(2) obtain k where s: "s = AtKey k" by (cases s) auto
    from ps s have nk: "\<not> inherited k" by simp
    let ?rv = "objGet es k"
    let ?tv = "objGet (propsOf t) k"
    from Cons.prems(2) JObj s have rd: "\<not> isUndefined (nodeAt ?rv pos)" by simp
    then have rvd: "\<not> isUndefined ?rv" by (cases "?rv") auto
    from objGet_defined [OF rvd] have mk: "map_of es k = Some ?rv" by auto
    from Cons.prems(1) JObj have ye: "yamlProps es" and ko: "keysOrdered es" by simp_all
    from yamlValue_objGet [OF ye rvd] have rvy: "yamlValue ?rv" .
    have tu: "isUndefined (nodeAt ?tv pos)"
      using Cons.prems(3) s by (cases t) (auto simp: objGet_def)
    have fit: "stepsFit ?tv pos"
      using Cons.prems(6) s by (cases t) (auto simp: objGet_def)
    from fillProps_at [OF mk keysOrdered_distinct [OF ko] nk, of "propsOf t" mode]
    have "objGet (fillProps (propsOf t) es mode) k = filledChild ?tv ?rv mode" .
    with JObj s fill_child_at [OF rvy rd tu fit ih]
    show ?thesis by simp
  qed (use Cons.prems(2) in \<open>simp_all\<close>)
qed

subsection \<open>Missing positions are filled by the policy\<close>




text \<open>
  Below a leaf of the built tree \<^verbatim>\<open>fillMissingFromRef\<close> fills nothing: with the
  reference \<^verbatim>\<open>{a: {b: "x"}}\<close> and the tree \<^verbatim>\<open>{a: "leaf"}\<close> the tree stays as it is,
  and the position \<^verbatim>\<open>a.b\<close> stays empty.
\<close>

lemma fill_keeps_leaf_above_position:
  "fillMissingFromRef (JObj [(Name (jstr ''a''), JStr (jstr ''leaf''))] :: int jsval)
       (JObj [(Name (jstr ''a''), JObj [(Name (jstr ''b''), JStr (jstr ''x''))])]) (jstr ''blank'')
     = JObj [(Name (jstr ''a''), JStr (jstr ''leaf''))]
   \<and> \<not> stepsFit (JObj [(Name (jstr ''a''), JStr (jstr ''leaf''))] :: int jsval)
        [AtKey (Name (jstr ''a'')), AtKey (Name (jstr ''b''))]"
  by (simp add: merge_eval)

subsection \<open>A target leaf under a reference object\<close>

text \<open>
  What holds of claim C10 on the code. Where the reference node is an object and
  the target is a leaf, the call returns what it returns on the empty object as
  target: the output is an object, nothing is added to the \<^verbatim>\<open>extra\<close> report, and
  the path of every key of the reference that does not name a member of
  \<^verbatim>\<open>Object.prototype\<close> is in the \<^verbatim>\<open>missing\<close> report; for a reference as a YAML parse
  yields it, none of whose keys names such a member, the output is the policy's
  clone of the reference.
\<close>

lemma leaf_target_discarded:
  assumes "isLeaf t"
  shows "reorderLike m (JObj refObj) t p st = reorderLike m (JObj refObj) (JObj []) p st
     \<and> isObject (fst (reorderLike m (JObj refObj) t p st))
     \<and> extra (snd (reorderLike m (JObj refObj) t p st)) = extra st
     \<and> (\<forall>k \<in> fst ` set refObj. \<not> inherited k \<longrightarrow>
          objPath p k \<in> set (missing (snd (reorderLike m (JObj refObj) t p st))))
     \<and> (yamlValue (JObj refObj) \<and> plainKeys (JObj refObj) \<longrightarrow>
          fst (reorderLike m (JObj refObj) t p st) = policyClone m (JObj refObj))"
proof -
  note a = leaf_target_as_empty [OF assms, where m = m and refObj = refObj and p = p and st = st]
  from assms have pt: "propsOf t = []" "elemsOf t = []" by (cases t; simp)+
  have u: "reorderLike m (JObj refObj) t p st = reorderLike m (JObj refObj) JUndefined p st"
    by (simp add: pt)
  have o: "isObject (fst (reorderLike m (JObj refObj) t p st))"
    unfolding reorderLike_obj_fst by simp
  have e: "extra (snd (reorderLike m (JObj refObj) t p st)) = extra st"
    by (rule reorderLike_no_extra [OF pt(2) pt(1)])
  have c: "yamlValue (JObj refObj) \<and> plainKeys (JObj refObj) \<Longrightarrow>
      fst (reorderLike m (JObj refObj) t p st) = policyClone m (JObj refObj)"
    unfolding u by (rule reorderLike_undefined_target) simp_all
  from a(1) a(2) o e c show ?thesis by blast
qed

text \<open>
  Claim C10 at a reference whose key names a member of \<^verbatim>\<open>Object.prototype\<close>. With
  the reference \<^verbatim>\<open>{toString: "x"}\<close> and the leaf \<^verbatim>\<open>"oops"\<close> as target, the target
  is taken as the literal \<^verbatim>\<open>{}\<close>, and \<^verbatim>\<open>"toString" in {}\<close> holds: the key is
  not recorded under \<^verbatim>\<open>missing\<close> and is not filled by the policy, the output has
  the inherited function in its place.
\<close>

theorem leaf_target_inherited_key_not_missing:
  "isLeaf (JStr (jstr ''oops'') :: int jsval)
   \<and> yamlValue (JObj [(Name (jstr ''toString''), JStr (jstr ''x''))] :: int jsval)
   \<and> normalize (jstr ''empty'') (JObj [(Name (jstr ''toString''), JStr (jstr ''x''))])
        (JStr (jstr ''oops'') :: int jsval)
      = (JObj [(Name (jstr ''toString''), JFunction (jstr ''toString''))],
         \<lparr>missing = [], extra = []\<rparr>)"
  by (simp add: merge_eval tree_eval)

subsection \<open>Target-only keys\<close>

text \<open>
  Claim C3 at a target whose only key outside the reference is the index key
  \<^verbatim>\<open>0\<close>: the merged object enumerates that key before the reference's key \<^verbatim>\<open>a\<close>,
  not after it; the key is kept with its value and reported as extra.
\<close>

theorem target_only_index_key_first:
  "yamlValue (JObj [(Name (jstr ''a''), JStr (jstr ''x''))] :: int jsval)
   \<and> yamlValue (JObj [(Idx 0, JStr (jstr ''z'')), (Name (jstr ''a''), JStr (jstr ''y''))] :: int jsval)
   \<and> normalize (jstr ''empty'') (JObj [(Name (jstr ''a''), JStr (jstr ''x''))])
        (JObj [(Idx 0, JStr (jstr ''z'')), (Name (jstr ''a''), JStr (jstr ''y''))] :: int jsval)
      = (JObj [(Idx 0, JStr (jstr ''z'')), (Name (jstr ''a''), JStr (jstr ''y''))],
         \<lparr>missing = [], extra = [jstr ''0'']\<rparr>)"
  by (simp add: merge_eval tree_eval)


end
